theory Spec2Isabelle
  imports Complex_Main "HOL-Library.Word"
begin

unbundle bit_operations_syntax

section \<open>JavaScript numbers and the 32-bit operators\<close>

text \<open>
  The bitwise operators of JavaScript convert their operands to 32-bit integers, work on
  the bit patterns and give back a Number. Integer-valued Numbers are modelled as
  \<^typ>\<open>int\<close>; the conversion \<open>ToInt32\<close> is reduction modulo \<open>2 ^ 32\<close>, the result of
  \<open>^\<close>, \<open>&\<close>, \<open><<\<close> and \<open>>>\<close> is read back as a signed value, the result of \<open>>>>\<close> as an
  unsigned one. A shift count is taken modulo 32.
\<close>

definition ToInt32 :: "int \<Rightarrow> 32 word" where
  "ToInt32 x = word_of_int x"

definition js_xor :: "int \<Rightarrow> int \<Rightarrow> int" where
  "js_xor a b = sint (ToInt32 a XOR ToInt32 b)"

definition js_and :: "int \<Rightarrow> int \<Rightarrow> int" where
  "js_and a b = sint (ToInt32 a AND ToInt32 b)"

definition js_shl :: "int \<Rightarrow> int \<Rightarrow> int" where
  "js_shl a k = sint (push_bit (nat (k mod 32)) (ToInt32 a))"

definition js_sar :: "int \<Rightarrow> int \<Rightarrow> int" where
  "js_sar a k = sint (signed_drop_bit (nat (k mod 32)) (ToInt32 a))"

definition js_shr :: "int \<Rightarrow> int \<Rightarrow> int" where
  "js_shr a k = uint (drop_bit (nat (k mod 32)) (ToInt32 a))"

section \<open>Gray code conversion (script.js, lines 27-71)\<close>

text \<open>\<open>const binToGray = (b) => (b ^ (b >>> 1));\<close>\<close>

definition binToGray :: "int \<Rightarrow> int" where
  "binToGray b = js_xor b (js_shr b 1)"

text \<open>
  \<open>const grayToBin = (g) => { let b = 0; for (; g; g >>= 1) { b ^= g; } return b; };\<close>
  The loop runs while \<open>g\<close> is truthy, that is, not zero. The shift \<open>>>=\<close> keeps the sign,
  so the loop need not end: \<open>None\<close> is the loop that never returns.
\<close>

partial_function (option) grayToBin_loop :: "int \<Rightarrow> int \<Rightarrow> int option" where
  "grayToBin_loop b g = (if g = 0 then Some b else grayToBin_loop (js_xor b g) (js_sar g 1))"

declare grayToBin_loop.simps [code]

definition grayToBin :: "int \<Rightarrow> int option" where
  "grayToBin g = grayToBin_loop 0 g"

text \<open>
  \<open>const hdist = (a, b) => { let x = a ^ b; let c = 0; while (x) { x &= x - 1; c++; } return c; };\<close>
  Each round clears the lowest set bit of the 32-bit pattern, so the loop always ends.
\<close>

function hdist_loop :: "int \<Rightarrow> int \<Rightarrow> int" where
  "hdist_loop x c = (if x = 0 then c else hdist_loop (js_and x (x - 1)) (c + 1))"
  by pat_completeness auto
termination
proof (relation "measure (\<lambda>(x, c). if x = 0 then 0 else 1 + unat (ToInt32 x))")
  fix x c :: int
  assume nz: "x \<noteq> 0"
  define w where "w = ToInt32 x"
  have and_eq: "ToInt32 (js_and x (x - 1)) = w AND (w - 1)"
    by (simp add: js_and_def ToInt32_def w_def)
  have "js_and x (x - 1) = 0 \<or> unat (w AND (w - 1)) < unat w"
  proof (cases "w = 0")
    case True
    then show ?thesis by (simp add: js_and_def ToInt32_def w_def)
  next
    case False
    have "w AND (w - 1) \<le> w - 1" by (rule word_and_le1)
    also have "w - 1 < w"
      using False by (simp add: word_less_nat_alt unat_minus_one unat_gt_0)
    finally show ?thesis by (simp add: word_less_nat_alt)
  qed
  thus "((js_and x (x - 1), c + 1), (x, c))
          \<in> measure (\<lambda>(x, c). if x = 0 then 0 else 1 + unat (ToInt32 x))"
    using nz and_eq by (auto simp: w_def)
qed simp

definition hdist :: "int \<Rightarrow> int \<Rightarrow> int" where
  "hdist a b = hdist_loop (js_xor a b) 0"

section \<open>Strings and \<open>pad\<close>\<close>

text \<open>
  A JavaScript string is a sequence of 16-bit code units. \<open>js_str\<close> embeds an ASCII
  literal. The digits are \<open>0x30\<close> and \<open>0x31\<close>, the minus sign is \<open>0x2D\<close>.
\<close>

type_synonym js_string = "16 word list"

definition js_str :: "string \<Rightarrow> js_string" where
  "js_str cs = map (\<lambda>c. of_nat (of_char c)) cs"

text \<open>\<open>x.toString(2)\<close> for an integer \<open>x\<close>: the binary digits of the magnitude, most
  significant first, after a minus sign when \<open>x\<close> is negative.\<close>

function bin_digits :: "int \<Rightarrow> js_string" where
  "bin_digits m = (if m < 2 then [0x30 + word_of_int m]
                   else bin_digits (m div 2) @ [0x30 + word_of_int (m mod 2)])"
  by pat_completeness auto
termination
  by (relation "measure nat") auto

definition toString2 :: "int \<Rightarrow> js_string" where
  "toString2 x = (if x < 0 then 0x2D # bin_digits (- x) else bin_digits x)"

text \<open>\<open>s.padStart(n, '0')\<close>: zeros in front up to length \<open>n\<close>; a longer string is kept.\<close>

definition padStart :: "js_string \<Rightarrow> int \<Rightarrow> js_string" where
  "padStart s n = replicate (nat n - length s) 0x30 @ s"

text \<open>\<open>const pad = (x, n) => x.toString(2).padStart(n, '0');\<close>\<close>

definition pad :: "int \<Rightarrow> int \<Rightarrow> js_string" where
  "pad x n = padStart (toString2 x) n"

section \<open>Values and \<open>parseInt\<close>\<close>

text \<open>
  A Number is a finite value, \<open>NaN\<close> or an infinity. A finite value is the rational
  that the double stands for; no distinction is made between \<open>0\<close> and \<open>-0\<close>. The
  arithmetic of \<open>setVal\<close> and of the click handlers is written without rounding: on
  integers of magnitude below \<open>2 ^ 53\<close> it is exact in JavaScript as well. The divisions
  of \<open>sectorFromAngle\<close> are rounded to doubles (\<open>toDouble\<close> below).
  \<open>JSOther\<close> stands for every value whose \<open>typeof\<close> is neither \<open>'number'\<close> nor
  \<open>'string'\<close>.
\<close>

datatype js_number = Finite rat | NaN | PosInfinity | NegInfinity

datatype js_value = JSNumber js_number | JSString js_string | JSOther

text \<open>
  \<open>parseInt(str, R)\<close> for a radix \<open>R\<close> from 2 to 36 other than 16 (the code uses 10
  and 2): leading white space is skipped, a sign is read, then the longest run of
  digits of the radix. No digit gives \<open>NaN\<close>. The integer read becomes a Number; one
  that is too large for a double becomes an infinity.
\<close>

definition isStrWhiteSpaceChar :: "16 word \<Rightarrow> bool" where
  "isStrWhiteSpaceChar c \<longleftrightarrow>
     c \<in> set [0x09, 0x0A, 0x0B, 0x0C, 0x0D, 0x20, 0xA0, 0x1680,
              0x2000, 0x2001, 0x2002, 0x2003, 0x2004, 0x2005, 0x2006, 0x2007, 0x2008,
              0x2009, 0x200A, 0x2028, 0x2029, 0x202F, 0x205F, 0x3000, 0xFEFF]"

definition digitValue :: "16 word \<Rightarrow> int option" where
  "digitValue c =
     (if 0x30 \<le> c \<and> c \<le> 0x39 then Some (uint c - 0x30)
      else if 0x61 \<le> c \<and> c \<le> 0x7A then Some (uint c - 0x61 + 10)
      else if 0x41 \<le> c \<and> c \<le> 0x5A then Some (uint c - 0x41 + 10)
      else None)"

fun radixDigits :: "int \<Rightarrow> js_string \<Rightarrow> int list" where
  "radixDigits R [] = []"
| "radixDigits R (c # cs) =
     (case digitValue c of
        Some d \<Rightarrow> if d < R then d # radixDigits R cs else []
      | None \<Rightarrow> [])"

definition digitsValue :: "int \<Rightarrow> int list \<Rightarrow> int" where
  "digitsValue R ds = foldl (\<lambda>acc d. acc * R + d) 0 ds"

definition parseInt_math :: "js_string \<Rightarrow> int \<Rightarrow> int option" where
  "parseInt_math str R =
     (let S = dropWhile isStrWhiteSpaceChar str;
          sign = (if S \<noteq> [] \<and> hd S = 0x2D then - 1 else 1);
          S' = (if S \<noteq> [] \<and> (hd S = 0x2B \<or> hd S = 0x2D) then tl S else S);
          Z = radixDigits R S'
      in if Z = [] then None else Some (sign * digitsValue R Z))"

definition toNumber :: "int \<Rightarrow> js_number" where
  "toNumber k =
     (if 2 ^ 1024 - 2 ^ 970 \<le> k then PosInfinity
      else if k \<le> - (2 ^ 1024 - 2 ^ 970) then NegInfinity
      else Finite (of_int k))"

definition parseInt :: "js_string \<Rightarrow> int \<Rightarrow> js_number" where
  "parseInt str R = (case parseInt_math str R of None \<Rightarrow> NaN | Some k \<Rightarrow> toNumber k)"

text \<open>The remainder operator \<open>%\<close>: the quotient is truncated towards zero, so the
  result has the sign of the dividend. The divisor is never zero where the code uses it.\<close>

definition js_rem :: "rat \<Rightarrow> rat \<Rightarrow> rat" where
  "js_rem a b = a - b * of_int (if 0 \<le> a / b then \<lfloor>a / b\<rfloor> else \<lceil>a / b\<rceil>)"

definition js_rem_int :: "int \<Rightarrow> int \<Rightarrow> int" where
  "js_rem_int a b = sgn a * (\<bar>a\<bar> mod \<bar>b\<bar>)"

section \<open>Doubles and their arithmetic\<close>

text \<open>The number of binary digits of a positive integer.\<close>

function bit_length :: "int \<Rightarrow> nat" where
  "bit_length p = (if p \<le> 0 then 0 else Suc (bit_length (p div 2)))"
  by pat_completeness auto
termination
  by (relation "measure nat") auto

declare bit_length.simps [simp del]

text \<open>The binary exponent of a positive rational \<open>x\<close>: the integer \<open>e\<close> with
  \<open>2 ^ e \<le> x < 2 ^ (e + 1)\<close>.\<close>

definition ilog2 :: "rat \<Rightarrow> int" where
  "ilog2 x = (let (p, q) = quotient_of x;
                  d = int (bit_length p) - int (bit_length q)
              in if 2 powi d \<le> x then d else d - 1)"

text \<open>Rounding to the nearest integer, a tie going to the even one.\<close>

definition round_half_even :: "rat \<Rightarrow> int" where
  "round_half_even y =
     (let f = \<lfloor>y\<rfloor>; r = y - of_int f
      in if r < 1 / 2 then f else if 1 / 2 < r then f + 1 else if even f then f else f + 1)"

text \<open>The unit in the last place of a positive value: 52 binary places below its
  exponent, and \<open>2 ^ -1074\<close> for the subnormal numbers.\<close>

definition ulp :: "rat \<Rightarrow> rat" where
  "ulp a = 2 powi (max (ilog2 a) (- 1022) - 52)"

text \<open>The double nearest to a rational (round to nearest, ties to even), as every
  arithmetic operation of JavaScript delivers it; a result of magnitude \<open>2 ^ 1024\<close> or
  more is an infinity.\<close>

definition toDouble :: "rat \<Rightarrow> js_number" where
  "toDouble x =
     (if x = 0 then Finite 0
      else (let a = \<bar>x\<bar>; y = of_int (round_half_even (a / ulp a)) * ulp a
            in if 2 ^ 1024 \<le> y then (if 0 < x then PosInfinity else NegInfinity)
               else Finite (sgn x * y)))"

text \<open>The rationals that are doubles are those that rounding leaves as they are.\<close>

definition is_double :: "rat \<Rightarrow> bool" where
  "is_double x \<longleftrightarrow> toDouble x = Finite x"

text \<open>The operators \<open>/\<close> and \<open>+\<close>, \<open>Math.floor\<close> and the remainder \<open>%\<close> on Numbers. The
  remainder of two finite values is exact. A zero divisor is taken as \<open>+0\<close>.\<close>

definition js_div :: "js_number \<Rightarrow> js_number \<Rightarrow> js_number" where
  "js_div x y =
     (case (x, y) of
        (Finite a, Finite b) \<Rightarrow>
          if b = 0 then (if a = 0 then NaN else if 0 < a then PosInfinity else NegInfinity)
          else toDouble (a / b)
      | (Finite a, PosInfinity) \<Rightarrow> Finite 0
      | (Finite a, NegInfinity) \<Rightarrow> Finite 0
      | (PosInfinity, Finite b) \<Rightarrow> if 0 \<le> b then PosInfinity else NegInfinity
      | (NegInfinity, Finite b) \<Rightarrow> if 0 \<le> b then NegInfinity else PosInfinity
      | _ \<Rightarrow> NaN)"

definition js_add :: "js_number \<Rightarrow> js_number \<Rightarrow> js_number" where
  "js_add x y =
     (case (x, y) of
        (Finite a, Finite b) \<Rightarrow> toDouble (a + b)
      | (NaN, _) \<Rightarrow> NaN
      | (_, NaN) \<Rightarrow> NaN
      | (PosInfinity, NegInfinity) \<Rightarrow> NaN
      | (NegInfinity, PosInfinity) \<Rightarrow> NaN
      | (PosInfinity, _) \<Rightarrow> PosInfinity
      | (NegInfinity, _) \<Rightarrow> NegInfinity
      | (_, z) \<Rightarrow> z)"

definition js_floor :: "js_number \<Rightarrow> js_number" where
  "js_floor x = (case x of Finite a \<Rightarrow> Finite (of_int \<lfloor>a\<rfloor>) | _ \<Rightarrow> x)"

definition js_mod :: "js_number \<Rightarrow> js_number \<Rightarrow> js_number" where
  "js_mod x y =
     (case (x, y) of
        (Finite a, Finite b) \<Rightarrow> if b = 0 then NaN else Finite (js_rem a b)
      | (Finite a, PosInfinity) \<Rightarrow> Finite a
      | (Finite a, NegInfinity) \<Rightarrow> Finite a
      | _ \<Rightarrow> NaN)"

section \<open>The Convert tab (script.js, lines 624-642)\<close>

text \<open>The value \<open>convert\<close> returns when there is no result: the one-character string
  with code unit \<open>0x2014\<close>.\<close>

definition noResult :: js_string where
  "noResult = [0x2014]"

text \<open>\<open>input.replace(/[^01]/g, '')\<close>: the code units \<open>0x30\<close> and \<open>0x31\<close> are kept, in
  order, and every other one is removed.\<close>

definition stripNonBinary :: "js_string \<Rightarrow> js_string" where
  "stripNonBinary str = filter (\<lambda>c. c = 0x30 \<or> c = 0x31) str"

text \<open>
  \<open>convert(input, toGray)\<close>. The result is \<open>None\<close> when the call never returns.
  With a positive infinity both conversions give 0 (its 32-bit conversion is 0).
\<close>

definition convert :: "js_value \<Rightarrow> bool \<Rightarrow> js_string option" where
  "convert input toGray =
     (case input of
        JSString str \<Rightarrow>
          (let s = stripNonBinary str in
           if s = [] then Some noResult
           else if length s > 32 then Some noResult
           else (case parseInt s 2 of
                   NaN \<Rightarrow> Some noResult
                 | NegInfinity \<Rightarrow> Some noResult
                 | PosInfinity \<Rightarrow> Some (pad 0 (int (length s)))
                 | Finite num \<Rightarrow>
                     if num < 0 then Some noResult
                     else map_option (\<lambda>result. pad result (int (length s)))
                            (if toGray then Some (binToGray \<lfloor>num\<rfloor>) else grayToBin \<lfloor>num\<rfloor>)))
      | _ \<Rightarrow> Some noResult)"

text \<open>The input of 32 ones, the longest that \<open>convert\<close> accepts.\<close>

definition ones32 :: js_string where
  "ones32 = replicate 32 0x31"

section \<open>The Basics tab (script.js, lines 111-175 and 293-310)\<close>

text \<open>
  The global variables \<open>n\<close> and \<open>val\<close>, the state of the check box \<open>wrap\<close> and the
  diagnostics written to the console. The text fields and the table that \<open>setVal\<close>
  refreshes are functions of \<open>n\<close> and \<open>val\<close> and are not part of the state.
\<close>

datatype diagnostic = InvalidInputType | InvalidNumericValue | ValueTooLarge

record basics =
  st_n :: int
  st_val :: rat
  st_wrap :: bool
  st_console :: "diagnostic list"

definition warn :: "diagnostic \<Rightarrow> basics \<Rightarrow> basics" where
  "warn d st = st\<lparr>st_console := st_console st @ [d]\<rparr>"

definition MAX_SAFE_INTEGER :: rat where
  "MAX_SAFE_INTEGER = 2 ^ 53 - 1"

text \<open>Lines 137-142 of \<open>setVal\<close>: the type test and the conversion of a string.
  \<open>None\<close> is the argument that is neither a number nor a string.\<close>

definition numVal_of :: "js_value \<Rightarrow> js_number option" where
  "numVal_of v =
     (case v of
        JSNumber x \<Rightarrow> Some x
      | JSString s \<Rightarrow> Some (parseInt s 10)
      | JSOther \<Rightarrow> None)"

definition setVal :: "js_value \<Rightarrow> basics \<Rightarrow> basics" where
  "setVal v st =
     (case numVal_of v of
        None \<Rightarrow> warn InvalidInputType st
      | Some (Finite numVal) \<Rightarrow>
          if \<bar>numVal\<bar> > MAX_SAFE_INTEGER then warn ValueTooLarge st
          else
            (let mx = of_int (js_shl 1 (st_n st) - 1) in
             if st_wrap st
             then st\<lparr>st_val := js_rem (js_rem numVal (mx + 1) + (mx + 1)) (mx + 1)\<rparr>
             else st\<lparr>st_val := max 0 (min mx (of_int \<lfloor>numVal\<rfloor>))\<rparr>)
      | Some _ \<Rightarrow> warn InvalidNumericValue st)"

text \<open>The click handlers of the buttons \<open>prev\<close> and \<open>next\<close>.\<close>

definition prev_click :: "basics \<Rightarrow> basics" where
  "prev_click st =
     (let mx = of_int (js_shl 1 (st_n st)) in
      if st_wrap st then setVal (JSNumber (Finite (js_rem (st_val st - 1 + mx) mx))) st
      else setVal (JSNumber (Finite (st_val st - 1))) st)"

definition next_click :: "basics \<Rightarrow> basics" where
  "next_click st =
     (let mx = of_int (js_shl 1 (st_n st)) in
      if st_wrap st then setVal (JSNumber (Finite (js_rem (st_val st + 1) mx))) st
      else setVal (JSNumber (Finite (st_val st + 1))) st)"

section \<open>The encoder disc (script.js, lines 358-363, 397-408 and 482)\<close>

text \<open>
  \<open>sectorFromAngle(angle, bits)\<close>: \<open>sectors = 1 << bits\<close>, \<open>step = 360 / sectors\<close>,
  the result is \<open>Math.floor(angle / step) % sectors\<close>. Both divisions are divisions of
  doubles and round; the result is a Number, which can be \<open>NaN\<close>.
\<close>

definition sectorFromAngle :: "js_number \<Rightarrow> int \<Rightarrow> js_number" where
  "sectorFromAngle angle bits =
     (let sectors = Finite (of_int (js_shl 1 bits));
          step = js_div (Finite 360) sectors
      in js_mod (js_floor (js_div angle step)) sectors)"

text \<open>\<open>renderDiscAll\<close>, line 482: \<open>Math.max(1, Math.min(12, $('discBits').value | 0))\<close>,
  where \<open>raw\<close> is the 32-bit integer that \<open>| 0\<close> gives.\<close>

definition discBits :: "int \<Rightarrow> int" where
  "discBits raw = max 1 (min 12 raw)"

text \<open>
  The geometry of \<open>drawDisc\<close> for a canvas of \<open>W\<close> by \<open>H\<close> pixels: the outer radius,
  the gap between rings, the ring width, and the outer and inner radius \<open>r1\<close> and
  \<open>r0\<close> of ring \<open>k\<close> that the arcs are drawn with.
\<close>

definition rOuter :: "int \<Rightarrow> int \<Rightarrow> rat" where
  "rOuter W H = of_int (min W H) / 2 - 20"

definition ringGap :: rat where
  "ringGap = 4"

definition ringWidth :: "int \<Rightarrow> int \<Rightarrow> int \<Rightarrow> rat" where
  "ringWidth W H bits = (rOuter W H - 20 - (of_int bits - 1) * ringGap) / of_int bits"

definition r1 :: "int \<Rightarrow> int \<Rightarrow> int \<Rightarrow> int \<Rightarrow> rat" where
  "r1 W H bits k = rOuter W H - of_int k * (ringWidth W H bits + ringGap)"

definition r0 :: "int \<Rightarrow> int \<Rightarrow> int \<Rightarrow> int \<Rightarrow> rat" where
  "r0 W H bits k = r1 W H bits k - ringWidth W H bits"

section \<open>The reflected construction\<close>

text \<open>Modelled from the spec: the recursive reflected binary construction, which is
  not in the source. \<open>RBC(0) = [""]\<close>; \<open>RBC(k)\<close> is each element of \<open>RBC(k - 1)\<close> with
  the prefix \<open>0\<close>, in order, followed by each element of the reversed \<open>RBC(k - 1)\<close>
  with the prefix \<open>1\<close>.\<close>

fun RBC :: "nat \<Rightarrow> js_string list" where
  "RBC 0 = [[]]"
| "RBC (Suc k) = map ((#) 0x30) (RBC k) @ map ((#) 0x31) (rev (RBC k))"

text \<open>The sequence of the closed form, as the loop of \<open>exportData\<close> (lines 827-832)
  builds it: \<open>pad(binToGray(i), n)\<close> for \<open>i\<close> from 0 while \<open>i < (1 << n)\<close>.\<close>

definition graySequence :: "int \<Rightarrow> js_string list" where
  "graySequence n = map (\<lambda>i. pad (binToGray (int i)) n) [0 ..< nat (js_shl 1 n)]"

section \<open>Auxiliary notions for the proofs\<close>

text \<open>The \<open>k\<close> low bits of \<open>x\<close> as a string of \<open>k\<close> digits, most significant first, and
  the Gray code on unbounded integers.\<close>

fun bits_of :: "nat \<Rightarrow> int \<Rightarrow> js_string" where
  "bits_of 0 x = []"
| "bits_of (Suc k) x = bits_of k (x div 2) @ [0x30 + word_of_int (x mod 2)]"

definition gray :: "int \<Rightarrow> int" where
  "gray v = v XOR v div 2"

section \<open>The 32-bit operators on small non-negative integers\<close>

lemma js_xor_int: "js_xor a b = signed_take_bit 31 (a XOR b)"
  by (simp add: js_xor_def ToInt32_def word_wi_log_defs sint_sbintrunc')

lemma js_and_int: "js_and a b = signed_take_bit 31 (a AND b)"
  by (simp add: js_and_def ToInt32_def word_wi_log_defs sint_sbintrunc')

lemma js_sar_int: "js_sar a 1 = signed_take_bit 31 a div 2"
  by (simp add: js_sar_def ToInt32_def sint_signed_drop_bit_eq sint_sbintrunc' drop_bit_eq_div)

lemma js_shr_int: "js_shr a 1 = take_bit 32 a div 2"
  by (simp add: js_shr_def ToInt32_def drop_bit_eq_div uint_div uint_word_of_int_eq)

lemma small_signed: "0 \<le> a \<Longrightarrow> a < 2 ^ 31 \<Longrightarrow> signed_take_bit 31 (a::int) = a"
  by (simp add: signed_take_bit_int_eq_self)

lemma small_take: "0 \<le> a \<Longrightarrow> a < 2 ^ 31 \<Longrightarrow> take_bit 32 (a::int) = a"
  by (simp add: take_bit_int_eq_self)

lemma xor_small:
  "0 \<le> a \<Longrightarrow> a < 2 ^ n \<Longrightarrow> 0 \<le> b \<Longrightarrow> b < 2 ^ n \<Longrightarrow> 0 \<le> a XOR b \<and> a XOR b < (2::int) ^ n"
  by (simp add: XOR_upper)

lemma xor_half: "(a XOR b) div 2 = a div 2 XOR (b div 2 :: int)"
  using drop_bit_xor [of 1 a b] by (simp add: drop_bit_eq_div)

lemma js_shl_1:
  assumes "0 \<le> k" "k < 31"
  shows "js_shl 1 k = 2 ^ nat k"
proof -
  have "nat k < 31" using assms by simp
  hence lt: "(2::int) ^ nat k < 2 ^ 31"
    by (simp only: power_strict_increasing_iff [of 2])
  have ge: "- (2 ^ 31) \<le> (2::int) ^ nat k"
    by (rule order_trans [of _ 0]) simp_all
  have k: "nat (k mod 32) = nat k" using assms by simp
  have w: "push_bit (nat k) (1::32 word) = word_of_int (2 ^ nat k)"
    by (simp add: push_bit_eq_mult)
  have "js_shl 1 k = sint (word_of_int (2 ^ nat k) :: 32 word)"
    unfolding js_shl_def ToInt32_def k using w by simp
  also have "\<dots> = signed_take_bit 31 (2 ^ nat k)"
    by (simp only: sint_sbintrunc') simp
  also have "\<dots> = 2 ^ nat k"
    using lt ge by (rule signed_take_bit_int_eq_self [rotated])
  finally show ?thesis .
qed

lemma pow_bound:
  assumes "n \<le> 12" "v < 2 ^ nat n"
  shows "(v::int) < 2 ^ 31"
proof -
  have "(2::int) ^ nat n \<le> 2 ^ 12"
    using assms(1) by (intro power_increasing) simp_all
  thus ?thesis using assms(2) by simp
qed

section \<open>Binary to Gray and back\<close>

lemma binToGray_small:
  assumes "0 \<le> v" "v < 2 ^ 31"
  shows "binToGray v = v XOR v div 2"
proof -
  have "0 \<le> v div 2" "v div 2 < 2 ^ 31" using assms by simp_all
  with assms have "0 \<le> v XOR v div 2 \<and> v XOR v div 2 < 2 ^ 31" by (intro xor_small)
  thus ?thesis using assms
    by (simp add: binToGray_def js_xor_int js_shr_int small_signed small_take)
qed

lemma binToGray_bounds:
  assumes "0 \<le> v" "v < 2 ^ 31"
  shows "0 \<le> binToGray v \<and> binToGray v < 2 ^ 31"
proof -
  have "0 \<le> v div 2" "v div 2 < 2 ^ 31" using assms by simp_all
  with assms have "0 \<le> v XOR v div 2 \<and> v XOR v div 2 < 2 ^ 31" by (intro xor_small)
  thus ?thesis using assms by (simp add: binToGray_small)
qed

lemma gray_zero_iff: "v XOR v div 2 = 0 \<longleftrightarrow> v = 0" if "0 \<le> (v::int)"
proof
  assume "v XOR v div 2 = 0"
  hence "(v XOR v div 2) XOR v div 2 = v div 2" by simp
  hence "v = v div 2" by (simp add: xor.assoc)
  thus "v = 0" using that by linarith
qed simp

text \<open>The loop of \<open>grayToBin\<close>, started with the accumulator \<open>b\<close> on the Gray code of
  \<open>v\<close>, ends with \<open>b XOR v\<close>: by induction on \<open>v\<close>, which is halved in each round.\<close>

lemma grayToBin_loop_gray:
  fixes v b :: int
  assumes "0 \<le> v" "v < 2 ^ 31" "0 \<le> b" "b < 2 ^ 31"
  shows "grayToBin_loop b (v XOR v div 2) = Some (b XOR v)"
  using assms
proof (induction "nat v" arbitrary: v b rule: less_induct)
  case less
  show ?case
  proof (cases "v = 0")
    case True
    then show ?thesis by (simp add: grayToBin_loop.simps)
  next
    case False
    let ?g = "v XOR v div 2"
    have h: "0 \<le> v div 2" "v div 2 < 2 ^ 31" using less.prems by simp_all
    have g: "0 \<le> ?g" "?g < 2 ^ 31"
      using xor_small [OF less.prems(1,2) h] by simp_all
    have bg: "0 \<le> b XOR ?g" "b XOR ?g < 2 ^ 31"
      using xor_small [OF less.prems(3,4) g] by simp_all
    have nz: "?g \<noteq> 0" using False less.prems(1) by (simp add: gray_zero_iff)
    have "grayToBin_loop b ?g = grayToBin_loop (js_xor b ?g) (js_sar ?g 1)"
      using nz by (subst grayToBin_loop.simps) simp
    also have "js_xor b ?g = b XOR ?g"
      using bg by (simp add: js_xor_int small_signed)
    also have "js_sar ?g 1 = v div 2 XOR v div 2 div 2"
      using g by (simp add: js_sar_int small_signed xor_half)
    also have "grayToBin_loop (b XOR ?g) (v div 2 XOR v div 2 div 2)
                 = Some ((b XOR ?g) XOR v div 2)"
      using False less.prems(1) h bg by (intro less.hyps) simp_all
    also have "(b XOR ?g) XOR v div 2 = b XOR v"
      by (simp add: xor.assoc)
    finally show ?thesis .
  qed
qed

text \<open>
  C1. For every bit width \<open>n\<close> from 1 to 12 and every value \<open>v\<close> from 0 to
  \<open>2 ^ n - 1\<close>, \<open>grayToBin(binToGray(v))\<close> returns, and returns \<open>v\<close>: the loop of
  cumulative XORs undoes \<open>b ^ (b >>> 1)\<close>.
\<close>

theorem grayToBin_binToGray:
  assumes "1 \<le> n" "n \<le> 12" "0 \<le> v" "v \<le> 2 ^ nat n - 1"
  shows "grayToBin (binToGray v) = Some v"
proof -
  have "v < 2 ^ 31" using assms pow_bound [of n v] by simp
  thus ?thesis
    using assms(3) grayToBin_loop_gray [of v 0]
    by (simp add: grayToBin_def binToGray_small)
qed

theorem grayToBin_binToGray_witness:
  "(1::int) \<le> 4 \<and> (4::int) \<le> 12 \<and> (0::int) \<le> 10 \<and> (10::int) \<le> 2 ^ nat 4 - 1
     \<and> binToGray 10 = 15 \<and> grayToBin (binToGray 10) = Some 10"
proof -
  have g: "binToGray 10 = 15" by code_simp
  show ?thesis using grayToBin_binToGray [of 4 10] g by simp
qed

section \<open>Consecutive Gray codes\<close>

lemma pow2_and_pred: "(2::int) ^ k AND (2 ^ k - 1) = 0"
proof -
  have "(2::int) ^ k AND mask k = take_bit k (2 ^ k)" by (simp add: take_bit_eq_mask)
  thus ?thesis by (simp add: mask_eq_exp_minus_1)
qed

lemma hdist_loop_pow2:
  assumes "k < 31"
  shows "hdist_loop (2 ^ k) c = c + 1"
proof -
  have "js_and (2 ^ k) (2 ^ k - 1) = 0"
    by (simp add: js_and_int pow2_and_pred)
  thus ?thesis by simp
qed

text \<open>The Gray codes of \<open>v\<close> and \<open>v + 1\<close> differ in one bit: when \<open>v\<close> is even it is bit 0,
  when \<open>v\<close> is odd the difference is twice that of the halves.\<close>

lemma gray_step:
  fixes v :: int
  assumes "0 \<le> v"
  shows "\<exists>k. (v XOR v div 2) XOR ((v + 1) XOR (v + 1) div 2) = 2 ^ k"
  using assms
proof (induction "nat v" arbitrary: v rule: less_induct)
  case less
  let ?e = "(v XOR v div 2) XOR ((v + 1) XOR (v + 1) div 2)"
  show ?case
  proof (cases "even v")
    case True
    hence h: "(v + 1) div 2 = v div 2" by presburger
    have "v + 1 = v XOR 1" using True by (simp add: xor_one_eq ) 
    hence "?e = 1" unfolding h 
      by (simp add: xor.assoc xor.left_commute ac_simps)
    thus ?thesis by (intro exI [of _ 0]) simp
  next
    case False
    define m where "m = v div 2"
    have m: "0 \<le> m" "nat m < nat v" using False less.prems by (auto simp: m_def elim: oddE)
    have h: "(v + 1) div 2 = m + 1" using False by (simp add: m_def)
    obtain k where k: "(m XOR m div 2) XOR ((m + 1) XOR (m + 1) div 2) = 2 ^ k"
      using less.hyps [OF m(2) m(1)] by blast
    have ev: "even ?e" using False by (simp add: even_xor_iff h m_def) 
    have "?e div 2 = (m XOR m div 2) XOR ((m + 1) XOR (m + 1) div 2)"
      by (simp add: xor_half h flip: m_def)
    hence "?e = 2 * 2 ^ k" using ev k by presburger
    thus ?thesis by (intro exI [of _ "Suc k"]) simp
  qed
qed

lemma gray_mask:
  assumes "0 < k"
  shows "((2::int) ^ k - 1) XOR (2 ^ k - 1) div 2 = 2 ^ (k - 1)"
proof -
  have "(2::int) ^ k - 1 = mask k" by (simp add: mask_eq_exp_minus_1)
  moreover have "(mask k :: int) div 2 = mask (k - 1)"
    using drop_bit_mask_eq [of 1 k, where ?'a = int] by (simp add: drop_bit_eq_div)
  moreover have "(mask k :: int) XOR mask (k - 1) = 2 ^ (k - 1)"
    using assms by (intro bit_eqI) (auto simp: bit_simps)
  ultimately show ?thesis by simp
qed

lemma hdist_pow2:
  fixes a b :: int
  assumes "0 \<le> a" "a < 2 ^ 31" "0 \<le> b" "b < 2 ^ 31" "a XOR b = 2 ^ k"
  shows "hdist a b = 1"
proof -
  have ab: "0 \<le> a XOR b" "a XOR b < 2 ^ 31" using xor_small [OF assms(1-4)] by simp_all
  hence "(2::int) ^ k < 2 ^ 31" using assms(5) by simp
  hence "k < 31" by (simp only: power_strict_increasing_iff [of 2])
  thus ?thesis using ab assms(5) hdist_loop_pow2 [of k 0]
    by (simp add: hdist_def js_xor_int small_signed del: hdist_loop.simps)
qed

text \<open>
  C2. For every bit width \<open>n\<close> from 1 to 12 and every \<open>v\<close> from 0 to \<open>2 ^ n - 1\<close>, the
  Hamming distance between \<open>binToGray(v)\<close> and \<open>binToGray((v + 1) mod 2 ^ n)\<close> is 1,
  the step from \<open>2 ^ n - 1\<close> back to 0 included.
\<close>

theorem hdist_consecutive:
  assumes "1 \<le> n" "n \<le> 12" "0 \<le> v" "v \<le> 2 ^ nat n - 1"
  shows "hdist (binToGray v) (binToGray ((v + 1) mod 2 ^ nat n)) = 1"
proof -
  let ?w = "(v + 1) mod 2 ^ nat n"
  have v: "v < 2 ^ 31" using assms pow_bound [of n v] by simp
  have w0: "0 \<le> ?w" "?w < 2 ^ nat n" by simp_all
  have w: "?w < 2 ^ 31" using assms(2) w0(2) by (rule pow_bound)
  have gv: "0 \<le> binToGray v \<and> binToGray v < 2 ^ 31"
    using assms(3) v by (rule binToGray_bounds)
  have gw: "0 \<le> binToGray ?w \<and> binToGray ?w < 2 ^ 31"
    using w0(1) w by (rule binToGray_bounds)
  have "\<exists>k. binToGray v XOR binToGray ?w = 2 ^ k"
  proof (cases "v + 1 < 2 ^ nat n")
    case True
    hence "?w = v + 1" using assms(3) by simp
    moreover have "v + 1 < 2 ^ 31" using True assms(2) by (intro pow_bound [of n]) 
    ultimately show ?thesis
      using gray_step [OF assms(3)] assms(3) v by (simp add: binToGray_small)
  next
    case False
    hence eq: "v = 2 ^ nat n - 1" using assms(4) by simp
    hence "?w = 0" by simp
    moreover have "binToGray v = 2 ^ (nat n - 1)"
      using assms(1,3) v gray_mask [of "nat n"] by (simp add: binToGray_small eq)
    moreover have "binToGray 0 = 0" by (simp add: binToGray_small)
    ultimately show ?thesis by auto
  qed
  then obtain k where "binToGray v XOR binToGray ?w = 2 ^ k" ..
  thus ?thesis using gv gw by (intro hdist_pow2 [of _ _ k]) simp_all
qed

theorem hdist_consecutive_witness:
  "(1::int) \<le> 3 \<and> (3::int) \<le> 12 \<and> (0::int) \<le> 7 \<and> (7::int) \<le> 2 ^ nat 3 - 1
    \<and> (7 + 1) mod 2 ^ nat 3 = (0::int) \<and> hdist (binToGray 7) (binToGray 0) = 1"
  using hdist_consecutive [of 3 7] by simp

section \<open>The results of \<open>convert\<close>\<close>

lemma digit_not_space: "c = 0x30 \<or> c = 0x31 \<Longrightarrow> \<not> isStrWhiteSpaceChar c"
  by (auto simp: isStrWhiteSpaceChar_def)

lemma digitValue_binary: "c = 0x30 \<or> c = 0x31 \<Longrightarrow> digitValue c = Some (uint c - 0x30)"
  by (auto simp: digitValue_def)

lemma radixDigits_binary:
  "\<forall>c \<in> set s. c = 0x30 \<or> c = 0x31 \<Longrightarrow> radixDigits 2 s = map (\<lambda>c. uint c - 0x30) s"
  by (induction s) (auto simp: digitValue_binary)

lemma foldl_digits_bounds:
  fixes acc :: int
  shows "\<forall>d \<in> set ds. 0 \<le> d \<and> d < 2 \<Longrightarrow> 0 \<le> acc \<Longrightarrow>
     0 \<le> foldl (\<lambda>acc d. acc * 2 + d) acc ds
     \<and> foldl (\<lambda>acc d. acc * 2 + d) acc ds < (acc + 1) * 2 ^ length ds"
proof (induction ds arbitrary: acc)
  case Nil
  then show ?case by simp
next
  case (Cons d ds)
  have d: "0 \<le> d" "d < 2" using Cons.prems(1) by simp_all
  have a: "0 \<le> acc * 2 + d" using d Cons.prems(2) by simp
  have "\<forall>d \<in> set ds. 0 \<le> d \<and> d < 2" using Cons.prems(1) by simp
  from Cons.IH [OF this a]
  have ge: "0 \<le> foldl (\<lambda>acc d. acc * 2 + d) (acc * 2 + d) ds"
    and lt: "foldl (\<lambda>acc d. acc * 2 + d) (acc * 2 + d) ds < (acc * 2 + d + 1) * 2 ^ length ds"
    by simp_all
  have "acc * 2 + d + 1 \<le> (acc + 1) * 2" using d by simp
  hence "(acc * 2 + d + 1) * 2 ^ length ds \<le> ((acc + 1) * 2) * 2 ^ length ds"
    by (intro mult_right_mono) simp_all
  hence le: "(acc * 2 + d + 1) * 2 ^ length ds \<le> (acc + 1) * 2 ^ length (d # ds)"
    by (simp add: mult.assoc)
  have "foldl (\<lambda>acc d. acc * 2 + d) (acc * 2 + d) ds < (acc + 1) * 2 ^ length (d # ds)"
    using lt le by (rule less_le_trans)
  thus ?case using ge by simp
qed

lemma parseInt_math_binary:
  assumes "s \<noteq> []" "\<forall>c \<in> set s. c = 0x30 \<or> c = 0x31"
  shows "\<exists>k. parseInt_math s 2 = Some k \<and> 0 \<le> k \<and> k < 2 ^ length s"
proof -
  obtain c cs where s: "s = c # cs" using assms(1) by (cases s) auto
  have c: "c = 0x30 \<or> c = 0x31" using assms(2) s by simp
  have dw: "dropWhile isStrWhiteSpaceChar s = s"
    using digit_not_space [OF c] s by simp
  have sign: "hd s \<noteq> 0x2D" "hd s \<noteq> 0x2B" using c s by auto
  let ?Z = "map (\<lambda>c. uint c - 0x30) s"
  have Z: "radixDigits 2 s = ?Z" using assms(2) by (rule radixDigits_binary)
  have "\<forall>d \<in> set ?Z. 0 \<le> d \<and> d < 2" using assms(2) by auto
  from foldl_digits_bounds [OF this, of 0]
  have "0 \<le> digitsValue 2 ?Z \<and> digitsValue 2 ?Z < 2 ^ length s"
    by (simp add: digitsValue_def)
  moreover have "parseInt_math s 2 = Some (digitsValue 2 ?Z)"
    using assms(1) sign by (simp add: parseInt_math_def dw Z Let_def)
  ultimately show ?thesis by blast
qed

lemma toNumber_small: "0 \<le> k \<Longrightarrow> k < 2 ^ 32 \<Longrightarrow> toNumber k = Finite (of_int k)"
  by (simp add: toNumber_def)


lemma bin_digits_last:
  assumes "0 \<le> m"
  shows "bin_digits m \<noteq> [] \<and> (last (bin_digits m) = 0x30 \<or> last (bin_digits m) = 0x31)"
proof (cases "m < 2")
  case True
  hence "m = 0 \<or> m = 1" using assms by auto
  thus ?thesis by auto
next
  case False
  have "m mod 2 = 0 \<or> m mod 2 = 1" by presburger
  moreover have "bin_digits m = bin_digits (m div 2) @ [0x30 + word_of_int (m mod 2)]"
    using False by (subst bin_digits.simps) simp
  ultimately show ?thesis by auto
qed

lemma toString2_last:
  "toString2 x \<noteq> [] \<and> (last (toString2 x) = 0x30 \<or> last (toString2 x) = 0x31)"
proof (cases "x < 0")
  case True
  hence "0 \<le> - x" by simp
  from bin_digits_last [OF this] show ?thesis using True by (simp add: toString2_def)
next
  case False
  hence "0 \<le> x" by simp
  from bin_digits_last [OF this] show ?thesis using False by (simp add: toString2_def)
qed

lemma pad_not_noResult: "pad x n \<noteq> noResult"
proof
  assume "pad x n = noResult"
  hence "last (pad x n) = 0x2014" by (simp add: noResult_def)
  moreover have "last (pad x n) = last (toString2 x)"
    using toString2_last [of x] by (simp add: pad_def padStart_def)
  ultimately show False using toString2_last [of x] by auto
qed

lemma convert_other: "convert JSOther toGray = Some noResult"
  by (simp add: convert_def)

lemma convert_number: "convert (JSNumber x) toGray = Some noResult"
  by (simp add: convert_def)

lemma stripNonBinary_set: "\<forall>c \<in> set (stripNonBinary str). c = 0x30 \<or> c = 0x31"
  by (simp add: stripNonBinary_def)

lemma parseInt_binary:
  assumes "s \<noteq> []" "\<forall>c \<in> set s. c = 0x30 \<or> c = 0x31" "length s \<le> 32"
  shows "\<exists>k. parseInt s 2 = Finite (of_int k) \<and> 0 \<le> k \<and> k < 2 ^ length s"
proof -
  obtain k where k: "parseInt_math s 2 = Some k" "0 \<le> k" "k < 2 ^ length s"
    using parseInt_math_binary [OF assms(1,2)] by blast
  have "(2::int) ^ length s \<le> 2 ^ 32" using assms(3) by (intro power_increasing) simp_all
  hence "k < 2 ^ 32" using k(3) by simp
  hence "toNumber k = Finite (of_int k)" using k(2) by (intro toNumber_small)
  thus ?thesis using k by (auto simp: parseInt_def)
qed

lemma convert_string_digits:
  assumes "stripNonBinary str \<noteq> []" "length (stripNonBinary str) \<le> 32"
  shows "convert (JSString str) toGray \<noteq> Some noResult"
proof -
  let ?s = "stripNonBinary str"
  obtain k where k: "parseInt ?s 2 = Finite (of_int k)" "0 \<le> k"
    using parseInt_binary [OF assms(1) stripNonBinary_set assms(2)] by blast
  have "convert (JSString str) toGray =
          map_option (\<lambda>result. pad result (int (length ?s)))
            (if toGray then Some (binToGray k) else grayToBin k)"
    using assms k by (simp add: convert_def Let_def)
  thus ?thesis by (auto simp: pad_not_noResult)
qed

text \<open>
  C3, as amended. \<open>convert\<close> returns the value for "no result" exactly when the input
  is not a string, or no \<open>0\<close> or \<open>1\<close> is left once every other character is removed
  (the empty string included), or more than 32 of them are left. Other characters are
  removed, not rejected: a string with 1 to 32 binary digits among any other
  characters is never answered with "no result".
\<close>

theorem convert_noResult_iff:
  "convert input toGray = Some noResult \<longleftrightarrow>
     (\<forall>str. input = JSString str \<longrightarrow>
        stripNonBinary str = [] \<or> 32 < length (stripNonBinary str))"
proof (cases input)
  case (JSNumber x)
  then show ?thesis by (simp add: convert_number)
next
  case (JSString str)
  show ?thesis
  proof (cases "stripNonBinary str = [] \<or> 32 < length (stripNonBinary str)")
    case True
    then show ?thesis using JSString by (auto simp: convert_def Let_def)
  next
    case False
    hence "convert (JSString str) toGray \<noteq> Some noResult"
      by (intro convert_string_digits) simp_all
    then show ?thesis using JSString False by simp
  qed
next
  case JSOther
  then show ?thesis by (simp add: convert_other)
qed

theorem convert_noResult_iff_witness:
  "convert (JSString (js_str ''abc'')) True = Some noResult
   \<and> convert (JSString []) False = Some noResult
   \<and> convert (JSString (js_str ''10a1'')) True \<noteq> Some noResult"
proof -
  have a: "stripNonBinary (js_str ''abc'') = []" by code_simp
  have b: "stripNonBinary [] = []" by code_simp
  have c: "stripNonBinary (js_str ''10a1'') = js_str ''101''" by code_simp
  have d: "length (js_str ''101'') = 3" "js_str ''101'' \<noteq> []" by (simp_all add: js_str_def)
  show ?thesis
    using convert_noResult_iff [of "JSString (js_str ''abc'')" True]
      convert_noResult_iff [of "JSString []" False]
      convert_noResult_iff [of "JSString (js_str ''10a1'')" True]
    by (simp add: a b c d)
qed

text \<open>The claim as stated fails: \<open>convert("10a1", true)\<close> is \<open>"111"\<close>, and a string of 33
  characters with a single binary digit is converted.\<close>

theorem convert_mixed_input_counterexample:
  "convert (JSString (js_str ''10a1'')) True = Some (js_str ''111'')
   \<and> js_str ''111'' \<noteq> noResult
   \<and> length (js_str ''1xxxxxxxxxxxxxxxxxxxxxxxxxxxxxxxx'') = 33
   \<and> convert (JSString (js_str ''1xxxxxxxxxxxxxxxxxxxxxxxxxxxxxxxx'')) False = Some (js_str ''1'')
   \<and> js_str ''1'' \<noteq> noResult"
  by code_simp

text \<open>The loop of \<open>grayToBin\<close> returns only from a 32-bit value that is not negative:
  \<open>>>=\<close> keeps the sign bit, so a negative \<open>g\<close> never becomes 0.\<close>

lemma grayToBin_loop_returns_nonneg:
  "grayToBin_loop b g = Some y \<Longrightarrow> 0 \<le> signed_take_bit 31 g"
proof (induction b g y rule: grayToBin_loop.raw_induct [rotated 1, consumes 1])
  case (1 loop b g y)
  show ?case
  proof (cases "g = 0")
    case True
    then show ?thesis by simp
  next
    case False
    hence "loop (js_xor b g) (js_sar g 1) = Some y" using 1(2) by simp
    hence "0 \<le> signed_take_bit 31 (js_sar g 1)" by (rule 1(1))
    hence "0 \<le> signed_take_bit 31 (signed_take_bit 31 g div 2)" by (simp add: js_sar_int)
    moreover have "- (2 ^ 31) \<le> signed_take_bit 31 g" "signed_take_bit 31 g < 2 ^ 31"
      using signed_take_bit_int_greater_eq_minus_exp [of 31 g]
        signed_take_bit_int_less_exp [of 31 g] by simp_all
    hence "signed_take_bit 31 (signed_take_bit 31 g div 2) = signed_take_bit 31 g div 2"
      by (intro signed_take_bit_int_eq_self) simp_all
    ultimately show ?thesis by simp
  qed
qed

lemma grayToBin_loop_negative:
  "signed_take_bit 31 g < 0 \<Longrightarrow> grayToBin_loop b g = None"
  using grayToBin_loop_returns_nonneg [of b g] by (cases "grayToBin_loop b g") auto

text \<open>
  C10 says that every input with 1 to 32 binary digits is converted to a string of as
  many characters. The code at 32 ones: to Gray it gives 33 characters, a minus sign
  first, and to binary the call never returns.
\<close>

theorem convert_32_ones:
  "ones32 = js_str ''11111111111111111111111111111111''
   \<and> length ones32 = 32
   \<and> stripNonBinary ones32 = ones32
   \<and> convert (JSString ones32) True = Some (js_str ''-10000000000000000000000000000000'')
   \<and> length (js_str ''-10000000000000000000000000000000'') = 33
   \<and> convert (JSString ones32) False = None"
proof -
  have len: "length ones32 = 32" by (simp add: ones32_def)
  have s: "stripNonBinary ones32 = ones32" by (simp add: ones32_def stripNonBinary_def)
  have ne: "ones32 \<noteq> []" by (simp add: ones32_def)
  have p: "parseInt ones32 2 = Finite 4294967295" by code_simp
  have g: "binToGray 4294967295 = - 2147483648" by code_simp
  have pd: "pad (- 2147483648) 32 = js_str ''-10000000000000000000000000000000''" by code_simp
  have l33: "length (js_str ''-10000000000000000000000000000000'') = 33" by (simp add: js_str_def)
  have "signed_take_bit 31 (4294967295 :: int) < 0" by simp
  hence n: "grayToBin 4294967295 = None"
    unfolding grayToBin_def by (rule grayToBin_loop_negative)
  have lit: "ones32 = js_str ''11111111111111111111111111111111''" by code_simp
  have t: "convert (JSString ones32) True = Some (js_str ''-10000000000000000000000000000000'')"
    by (simp add: len convert_def s ne p g pd)
  have f: "convert (JSString ones32) False = None"
    by (simp add: len convert_def s ne p n)
  show ?thesis using lit len s t l33 f by (simp only: simp_thms)
qed

section \<open>Setting and stepping the current value\<close>

lemma js_rem_int_nonneg: "0 \<le> a \<Longrightarrow> 0 < b \<Longrightarrow> js_rem_int a b = a mod b"
  by (cases "a = 0") (simp_all add: js_rem_int_def)

lemma js_rem_int_neg: "a < 0 \<Longrightarrow> 0 < b \<Longrightarrow> js_rem_int a b = - ((- a) mod b)"
  by (simp add: js_rem_int_def)

lemma js_rem_of_int:
  assumes "0 < b"
  shows "js_rem (of_int a) (of_int b) = of_int (js_rem_int a b)"
proof (cases "0 \<le> a")
  case True
  hence "0 \<le> (of_int a :: rat) / of_int b" using assms by simp
  moreover have "\<lfloor>(of_int a :: rat) / of_int b\<rfloor> = a div b" by (rule floor_divide_of_int_eq)
  moreover have "a - b * (a div b) = a mod b" by (simp add: minus_mult_div_eq_mod)
  ultimately show ?thesis using True assms
    by (simp add: js_rem_def js_rem_int_nonneg flip: of_int_mult of_int_diff)
next
  case False
  hence neg: "a < 0" by simp
  hence "(of_int a :: rat) / of_int b < 0" using assms by (simp add: divide_neg_pos)
  hence n: "\<not> 0 \<le> (of_int a :: rat) / of_int b" by simp
  have "\<lceil>(of_int a :: rat) / of_int b\<rceil> = - \<lfloor>(of_int (- a) :: rat) / of_int b\<rfloor>"
    by (simp add: ceiling_def)
  also have "\<dots> = - ((- a) div b)" by (simp only: floor_divide_of_int_eq)
  finally have c: "\<lceil>(of_int a :: rat) / of_int b\<rceil> = - ((- a) div b)" .
  have "a - b * (- ((- a) div b)) = - ((- a) - b * ((- a) div b))" by (simp add: algebra_simps)
  also have "\<dots> = - ((- a) mod b)" by (simp only: minus_mult_div_eq_mod)
  finally have "a - b * (- ((- a) div b)) = - ((- a) mod b)" .
  hence "(of_int a :: rat) - of_int b * of_int (- ((- a) div b)) = of_int (- ((- a) mod b))"
    by (simp only: flip: of_int_mult of_int_diff)
  thus ?thesis using neg assms n c by (simp add: js_rem_def js_rem_int_neg)
qed

lemma js_rem_int_wrap:
  assumes "0 < S"
  shows "js_rem_int (js_rem_int k S + S) S = k mod S"
proof (cases "0 \<le> k")
  case True
  hence "js_rem_int k S = k mod S" using assms by (rule js_rem_int_nonneg)
  moreover have "0 \<le> k mod S + S" using assms by (simp add: add_nonneg_nonneg)
  ultimately show ?thesis using assms by (simp add: js_rem_int_nonneg)
next
  case False
  hence r: "js_rem_int k S = - ((- k) mod S)" using assms by (simp add: js_rem_int_neg)
  have "(- k) mod S < S" using assms by simp
  hence "0 \<le> - ((- k) mod S) + S" by simp
  hence "js_rem_int (- ((- k) mod S) + S) S = (- ((- k) mod S) + S) mod S"
    using assms by (rule js_rem_int_nonneg)
  also have "\<dots> = (- ((- k) mod S)) mod S" by simp
  also have "\<dots> = k mod S" by (simp add: mod_minus_eq)
  finally show ?thesis using r by simp
qed


lemma sectors_pow:
  assumes "1 \<le> n" "n \<le> 12"
  shows "js_shl 1 n = 2 ^ nat n" "(2::int) ^ nat n \<le> 4096" "(2::int) \<le> 2 ^ nat n"
proof -
  show "js_shl 1 n = 2 ^ nat n" using assms by (intro js_shl_1) simp_all
  have "(2::int) ^ nat n \<le> 2 ^ 12" using assms by (intro power_increasing) simp_all
  thus "(2::int) ^ nat n \<le> 4096" by simp
  have "(2::int) ^ 1 \<le> 2 ^ nat n" using assms by (intro power_increasing) simp_all
  thus "(2::int) \<le> 2 ^ nat n" by simp
qed

text \<open>On an integer argument the wrap mode stores the residue modulo \<open>2 ^ n\<close>, and the
  clamp mode stores an integer from 0 to \<open>2 ^ n - 1\<close> for every finite argument.\<close>

lemma setVal_wrap_int:
  assumes "1 \<le> st_n st" "st_n st \<le> 12" "st_wrap st" "\<bar>k\<bar> \<le> 2 ^ 53 - 1"
  shows "setVal (JSNumber (Finite (of_int k))) st = st\<lparr>st_val := of_int (k mod 2 ^ nat (st_n st))\<rparr>"
proof -
  define S :: int where "S = 2 ^ nat (st_n st)"
  have shl: "js_shl 1 (st_n st) = S" unfolding S_def by (rule sectors_pow(1) [OF assms(1,2)])
  have pos: "0 < S" by (simp add: S_def)
  have safe: "\<not> \<bar>of_int k :: rat\<bar> > MAX_SAFE_INTEGER"
  proof -
    have "\<bar>of_int k :: rat\<bar> = of_int \<bar>k\<bar>" by simp
    also have "\<dots> \<le> of_int (2 ^ 53 - 1)" using assms(4) by (simp only: of_int_le_iff)
    finally show ?thesis by (simp add: MAX_SAFE_INTEGER_def)
  qed
  have mx: "(of_int (S - 1) :: rat) + 1 = of_int S" by simp
  have a: "js_rem (of_int k) (of_int S) = of_int (js_rem_int k S)"
    using pos by (rule js_rem_of_int)
  have b: "js_rem (of_int (js_rem_int k S + S)) (of_int S)
             = of_int (js_rem_int (js_rem_int k S + S) S)"
    using pos by (rule js_rem_of_int)
  have "js_rem (js_rem (of_int k) (of_int S) + of_int S) (of_int S)
          = (of_int (js_rem_int (js_rem_int k S + S) S) :: rat)"
    unfolding a using b by (simp only: of_int_add)
  also have "\<dots> = of_int (k mod S)" using pos by (simp only: js_rem_int_wrap)
  finally have "js_rem (js_rem (of_int k) (of_int S) + of_int S) (of_int S) = (of_int (k mod S) :: rat)" .
  hence "setVal (JSNumber (Finite (of_int k))) st = st\<lparr>st_val := of_int (k mod S)\<rparr>"
    using assms(3) safe unfolding setVal_def numVal_of_def Let_def shl mx by simp
  thus ?thesis by (simp only: S_def)
qed

lemma setVal_clamp:
  assumes "1 \<le> st_n st" "st_n st \<le> 12" "\<not> st_wrap st" "\<bar>q\<bar> \<le> MAX_SAFE_INTEGER"
  shows "setVal (JSNumber (Finite q)) st
           = st\<lparr>st_val := of_int (max 0 (min (2 ^ nat (st_n st) - 1) \<lfloor>q\<rfloor>))\<rparr>"
proof -
  note S = sectors_pow [OF assms(1,2)]
  have "max (0::rat) (min (of_int (2 ^ nat (st_n st) - 1)) (of_int \<lfloor>q\<rfloor>))
          = of_int (max 0 (min (2 ^ nat (st_n st) - 1) \<lfloor>q\<rfloor>))"
    by (simp only: of_int_max of_int_min of_int_0)
  thus ?thesis using assms(3,4)
    by (simp add: setVal_def numVal_of_def Let_def S(1))
qed


text \<open>
  C7. Decrementing the current value \<open>v\<close>, an integer from 0 to \<open>2 ^ n - 1\<close>, with the
  button \<open>prev\<close>: in wrap mode the new value is \<open>((v - 1) % 2 ^ n + 2 ^ n) % 2 ^ n\<close>,
  and without wrap it is \<open>max(0, min(2 ^ n - 1, v - 1))\<close>. With \<open>n = 3\<close>, from 0 the
  first gives 7 and the second 0.
\<close>

theorem prev_click_policy:
  assumes "1 \<le> st_n st" "st_n st \<le> 12"
    and "st_val st = of_int v" "0 \<le> v" "v \<le> 2 ^ nat (st_n st) - 1"
  shows "(st_wrap st \<longrightarrow>
            st_val (prev_click st)
              = of_int (js_rem_int (js_rem_int (v - 1) (2 ^ nat (st_n st)) + 2 ^ nat (st_n st))
                          (2 ^ nat (st_n st))))
         \<and> (\<not> st_wrap st \<longrightarrow>
            st_val (prev_click st) = of_int (max 0 (min (2 ^ nat (st_n st) - 1) (v - 1))))"
proof -
  define S :: int where "S = 2 ^ nat (st_n st)"
  have shl: "js_shl 1 (st_n st) = S" unfolding S_def by (rule sectors_pow(1) [OF assms(1,2)])
  have S: "S \<le> 4096" "2 \<le> S" unfolding S_def by (rule sectors_pow(2,3) [OF assms(1,2)])+
  have pos: "0 < S" using S(2) by simp
  have v: "0 \<le> v" "v \<le> S - 1" using assms(4,5) by (simp_all add: S_def)
  have wrap: "st_val (prev_click st) = of_int (js_rem_int (js_rem_int (v - 1) S + S) S)"
    if w: "st_wrap st"
  proof -
    define u where "u = js_rem_int (v - 1 + S) S"
    have "0 \<le> v - 1 + S" using v S(2) by simp
    hence u: "u = (v - 1 + S) mod S" unfolding u_def using pos by (rule js_rem_int_nonneg)
    hence ub: "0 \<le> u" "u < S" using pos by simp_all
    have arg: "js_rem (of_int v - 1 + of_int S) (of_int S) = (of_int u :: rat)"
      using js_rem_of_int [OF pos, of "v - 1 + S"] by (simp add: u_def)
    have "\<bar>u\<bar> \<le> 2 ^ 53 - 1" using ub S(1) by simp
    from setVal_wrap_int [OF assms(1,2) w this]
    have "setVal (JSNumber (Finite (of_int u))) st = st\<lparr>st_val := of_int (u mod S)\<rparr>"
      by (simp only: S_def)
    hence "st_val (prev_click st) = of_int (u mod S)"
      using w by (simp add: prev_click_def Let_def shl assms(3) arg)
    also have "u mod S = (v - 1) mod S" by (simp add: u)
    also have "\<dots> = js_rem_int (js_rem_int (v - 1) S + S) S"
      using pos by (simp only: js_rem_int_wrap)
    finally show ?thesis .
  qed
  have clamp: "st_val (prev_click st) = of_int (max 0 (min (S - 1) (v - 1)))"
    if w: "\<not> st_wrap st"
  proof -
    have "\<bar>of_int v - 1 :: rat\<bar> = of_int \<bar>v - 1\<bar>" by simp
    also have "\<bar>v - 1\<bar> \<le> 2 ^ 53 - 1" using v S(1) by simp
    hence "(of_int \<bar>v - 1\<bar> :: rat) \<le> of_int (2 ^ 53 - 1)" by (simp only: of_int_le_iff)
    finally have "\<bar>of_int v - 1 :: rat\<bar> \<le> MAX_SAFE_INTEGER" by (simp add: MAX_SAFE_INTEGER_def)
    from setVal_clamp [OF assms(1,2) w this]
    have "setVal (JSNumber (Finite (of_int v - 1))) st
            = st\<lparr>st_val := of_int (max 0 (min (S - 1) \<lfloor>of_int v - 1 :: rat\<rfloor>))\<rparr>"
      by (simp only: S_def)
    moreover have "\<lfloor>of_int v - 1 :: rat\<rfloor> = v - 1" by simp
    ultimately show ?thesis
      using w by (simp add: prev_click_def Let_def assms(3))
  qed
  show ?thesis using wrap clamp by (simp add: S_def)
qed

theorem prev_click_policy_witness:
  "st_val (prev_click \<lparr>st_n = 3, st_val = 0, st_wrap = True, st_console = []\<rparr>) = 7
   \<and> st_val (prev_click \<lparr>st_n = 3, st_val = 0, st_wrap = False, st_console = []\<rparr>) = 0"
proof -
  have r: "js_rem_int (js_rem_int (- 1) 8 + 8) 8 = 7" by code_simp
  show ?thesis
    using prev_click_policy [of "\<lparr>st_n = 3, st_val = 0, st_wrap = True, st_console = []\<rparr>" 0]
      prev_click_policy [of "\<lparr>st_n = 3, st_val = 0, st_wrap = False, st_console = []\<rparr>" 0]
    by (simp add: r)
qed

text \<open>
  C8. When \<open>setVal\<close> receives an argument that is neither a number nor a string, or one
  whose numeric value is \<open>NaN\<close> or an infinity, the current value, the bit width and
  the wrap flag are what they were, and the only change is one diagnostic more on the
  console.
\<close>

theorem setVal_invalid_input:
  assumes "numVal_of v = None \<or> numVal_of v = Some NaN
           \<or> numVal_of v = Some PosInfinity \<or> numVal_of v = Some NegInfinity"
  shows "st_val (setVal v st) = st_val st \<and> st_n (setVal v st) = st_n st
         \<and> st_wrap (setVal v st) = st_wrap st
         \<and> setVal v st
              = st\<lparr>st_console := st_console st
                   @ [if numVal_of v = None then InvalidInputType else InvalidNumericValue]\<rparr>"
  using assms by (auto simp: setVal_def warn_def)

theorem setVal_invalid_input_witness:
  "st_val (setVal JSOther \<lparr>st_n = 4, st_val = 5, st_wrap = True, st_console = []\<rparr>) = 5
   \<and> st_console (setVal JSOther \<lparr>st_n = 4, st_val = 5, st_wrap = True, st_console = []\<rparr>)
       = [InvalidInputType]
   \<and> st_val (setVal (JSString (js_str ''abc'')) \<lparr>st_n = 4, st_val = 5, st_wrap = True, st_console = []\<rparr>) = 5
   \<and> st_console (setVal (JSString (js_str ''abc'')) \<lparr>st_n = 4, st_val = 5, st_wrap = True, st_console = []\<rparr>)
       = [InvalidNumericValue]
   \<and> st_val (setVal (JSNumber PosInfinity) \<lparr>st_n = 4, st_val = 5, st_wrap = False, st_console = []\<rparr>) = 5"
proof -
  have a: "numVal_of JSOther = None" by (simp add: numVal_of_def)
  have b: "numVal_of (JSString (js_str ''abc'')) = Some NaN" by code_simp
  have c: "numVal_of (JSNumber PosInfinity) = Some PosInfinity" by (simp add: numVal_of_def)
  show ?thesis
    using setVal_invalid_input [of JSOther "\<lparr>st_n = 4, st_val = 5, st_wrap = True, st_console = []\<rparr>"]
      setVal_invalid_input [of "JSString (js_str ''abc'')" "\<lparr>st_n = 4, st_val = 5, st_wrap = True, st_console = []\<rparr>"]
      setVal_invalid_input [of "JSNumber PosInfinity" "\<lparr>st_n = 4, st_val = 5, st_wrap = False, st_console = []\<rparr>"]
    by (simp add: a b c)
qed

text \<open>
  C6 says that after \<open>setVal\<close> of any finite number the current value is an integer from
  0 to \<open>2 ^ n - 1\<close>, in both modes. The code at 2.5 with \<open>n = 4\<close>: in wrap mode the
  value stored is 2.5, which is no integer; the clamp mode applies \<open>Math.floor\<close> and
  stores 2.
\<close>

theorem setVal_fraction_wrap:
  "st_val (setVal (JSNumber (Finite (5 / 2))) \<lparr>st_n = 4, st_val = 0, st_wrap = True, st_console = []\<rparr>)
     = 5 / 2
   \<and> (5 / 2 :: rat) \<notin> \<int>
   \<and> st_val (setVal (JSNumber (Finite (5 / 2))) \<lparr>st_n = 4, st_val = 0, st_wrap = False, st_console = []\<rparr>)
     = 2"
proof -
  have a: "st_val (setVal (JSNumber (Finite (5 / 2))) \<lparr>st_n = 4, st_val = 0, st_wrap = True, st_console = []\<rparr>)
     = 5 / 2" by code_simp
  have b: "st_val (setVal (JSNumber (Finite (5 / 2))) \<lparr>st_n = 4, st_val = 0, st_wrap = False, st_console = []\<rparr>)
     = 2" by code_simp
  have "\<lfloor>5 / 2 :: rat\<rfloor> = 2" by (rule floor_unique) simp_all
  hence "frac (5 / 2 :: rat) \<noteq> 0" by (simp add: frac_def)
  hence "(5 / 2 :: rat) \<notin> \<int>" by (simp add: frac_eq_0_iff)
  thus ?thesis using a b by simp
qed

section \<open>Rounding to doubles\<close>

lemma bit_length_bounds:
  "0 < p \<Longrightarrow> 2 ^ (bit_length p - 1) \<le> p \<and> p < 2 ^ bit_length p \<and> 0 < bit_length p"
proof (induction p rule: bit_length.induct)
  case (1 p)
  show ?case
  proof (cases "p = 1")
    case True
    have "bit_length 1 = Suc (bit_length 0)" by (subst bit_length.simps) simp
    also have "bit_length 0 = 0" by (subst bit_length.simps) simp
    finally show ?thesis using True by simp
  next
    case False
    hence h: "0 < p div 2" using "1.prems" by simp
    have IH: "2 ^ (bit_length (p div 2) - 1) \<le> p div 2 \<and> p div 2 < 2 ^ bit_length (p div 2)
              \<and> 0 < bit_length (p div 2)"
      using "1.prems" h by (intro "1.IH") simp_all
    have unf: "bit_length p = Suc (bit_length (p div 2))"
      using "1.prems" by (subst bit_length.simps) simp
    obtain k where k: "bit_length (p div 2) = Suc k" using IH by (cases "bit_length (p div 2)") auto
    have "2 * 2 ^ k \<le> 2 * (p div 2)" using IH k by simp
    also have "\<dots> \<le> p" by simp
    finally have lo: "2 ^ (bit_length p - 1) \<le> p" by (simp add: unf k)
    have "p div 2 + 1 \<le> 2 ^ Suc k" using IH k by simp
    hence "2 * (p div 2) + 2 \<le> 2 * 2 ^ Suc k" by simp
    moreover have "p < 2 * (p div 2) + 2" by presburger
    ultimately have hi: "p < 2 ^ bit_length p" by (simp add: unf k)
    show ?thesis using lo hi unf by simp
  qed
qed

lemma pow_div_powi: "(2::rat) ^ m / 2 ^ n = 2 powi (int m - int n)"
  by (simp add: power_int_diff)

lemma ilog2_bounds:
  assumes "0 < x"
  shows "2 powi (ilog2 x) \<le> x \<and> x < 2 powi (ilog2 x + 1)"
proof -
  obtain p q where pq: "quotient_of x = (p, q)" by (cases "quotient_of x")
  have q: "0 < q" using pq by (rule quotient_of_denom_pos)
  have x: "x = of_int p / of_int q" using pq by (rule quotient_of_div)
  have p: "0 < p" using assms q x by (simp add: zero_less_divide_iff)
  define bp where "bp = bit_length p"
  define bq where "bq = bit_length q"
  define d where "d = int bp - int bq"
  have P: "2 ^ (bp - 1) \<le> p" "p < 2 ^ bp" "0 < bp"
    using bit_length_bounds [OF p] by (simp_all add: bp_def)
  have Q: "2 ^ (bq - 1) \<le> q" "q < 2 ^ bq" "0 < bq"
    using bit_length_bounds [OF q] by (simp_all add: bq_def)
  have il: "ilog2 x = (if 2 powi d \<le> x then d else d - 1)"
    by (simp add: ilog2_def pq d_def bp_def bq_def Let_def)
  have qr: "(0::rat) < of_int q" using q by simp
  have pr: "(0::rat) \<le> of_int p" using p by simp
  have "(of_int p :: rat) < of_int (2 ^ bp)" using P(2) by (simp only: of_int_less_iff)
  hence p_hi: "(of_int p :: rat) < 2 ^ bp" by simp
  have "(of_int (2 ^ (bp - 1)) :: rat) \<le> of_int p" using P(1) by (simp only: of_int_le_iff)
  hence p_lo: "(2::rat) ^ (bp - 1) \<le> of_int p" by simp
  have "q \<le> 2 ^ bq" using Q(2) by simp
  hence "(of_int q :: rat) \<le> of_int (2 ^ bq)" by (simp only: of_int_le_iff)
  hence q_hi: "(of_int q :: rat) \<le> 2 ^ bq" by simp
  have "(of_int (2 ^ (bq - 1)) :: rat) \<le> of_int q" using Q(1) by (simp only: of_int_le_iff)
  hence q_lo: "(2::rat) ^ (bq - 1) \<le> of_int q" by simp
  have "of_int p / of_int q < (2::rat) ^ bp / 2 ^ (bq - 1)"
    using pr p_hi _ q_lo by (rule frac_less) simp
  also have "(2::rat) ^ bp / 2 ^ (bq - 1) = 2 powi (int bp - int (bq - 1))"
    by (rule pow_div_powi)
  also have "int bp - int (bq - 1) = d + 1" using Q(3) by (simp add: d_def)
  finally have up: "x < 2 powi (d + 1)" by (simp only: x)
  have "(2::rat) ^ (bp - 1) / 2 ^ bq \<le> of_int p / of_int q"
    using pr p_lo qr q_hi by (rule frac_le)
  moreover have "(2::rat) ^ (bp - 1) / 2 ^ bq = 2 powi (int (bp - 1) - int bq)"
    by (rule pow_div_powi)
  moreover have "int (bp - 1) - int bq = d - 1" using P(3) by (simp add: d_def)
  ultimately have lo: "2 powi (d - 1) \<le> x" by (simp only: x)
  show ?thesis
  proof (cases "2 powi d \<le> x")
    case True
    then show ?thesis using up by (simp add: il)
  next
    case False
    hence "x < 2 powi d" by simp
    then show ?thesis using lo False by (simp add: il)
  qed
qed


lemma powi2_less_iff: "(2::rat) powi m < 2 powi n \<longleftrightarrow> m < n"
proof
  assume a: "(2::rat) powi m < 2 powi n"
  show "m < n"
  proof (rule ccontr)
    assume "\<not> m < n"
    hence "n \<le> m" by simp
    hence "(2::rat) powi n \<le> 2 powi m" by (rule power_int_increasing) simp
    thus False using a by simp
  qed
next
  assume "m < n"
  thus "(2::rat) powi m < 2 powi n" by (rule power_int_strict_increasing) simp
qed

lemma powi2_le_iff: "(2::rat) powi m \<le> 2 powi n \<longleftrightarrow> m \<le> n"
  using powi2_less_iff [of n m] by (auto simp: not_less [symmetric])

lemma ilog2_ge:
  assumes "0 < x" "2 powi k \<le> x"
  shows "k \<le> ilog2 x"
proof -
  have "x < 2 powi (ilog2 x + 1)" using ilog2_bounds [OF assms(1)] by simp
  with assms(2) have "(2::rat) powi k < 2 powi (ilog2 x + 1)" by (rule le_less_trans)
  thus ?thesis by (simp add: powi2_less_iff)
qed

lemma ilog2_less:
  assumes "0 < x" "x < 2 powi k"
  shows "ilog2 x < k"
proof -
  have "2 powi (ilog2 x) \<le> x" using ilog2_bounds [OF assms(1)] by simp
  hence "(2::rat) powi (ilog2 x) < 2 powi k" using assms(2) by (rule le_less_trans)
  thus ?thesis by (simp add: powi2_less_iff)
qed

lemma round_half_even_cases:
  "round_half_even y = \<lfloor>y\<rfloor> \<and> y - of_int \<lfloor>y\<rfloor> \<le> 1 / 2
   \<or> round_half_even y = \<lfloor>y\<rfloor> + 1 \<and> 1 / 2 \<le> y - of_int \<lfloor>y\<rfloor>"
  by (auto simp: round_half_even_def Let_def)

lemma round_half_even_error: "\<bar>of_int (round_half_even y) - y\<bar> \<le> 1 / 2"
proof -
  have "of_int \<lfloor>y\<rfloor> \<le> y" "y < of_int \<lfloor>y\<rfloor> + 1" by linarith+
  thus ?thesis using round_half_even_cases [of y] by auto
qed

lemma round_half_even_ge:
  assumes "of_int k \<le> y"
  shows "k \<le> round_half_even y"
proof -
  have "k \<le> \<lfloor>y\<rfloor>" using assms by (simp add: le_floor_iff)
  thus ?thesis using round_half_even_cases [of y] by auto
qed

lemma ulp_pos: "0 < ulp a"
  by (simp add: ulp_def)

lemma ulp_ge: "2 powi (ilog2 a - 52) \<le> ulp a"
  unfolding ulp_def by (rule power_int_increasing) simp_all

text \<open>An integer below \<open>2 ^ 53\<close> is a multiple of the unit in the last place of every
  larger number below \<open>2 ^ 53\<close>.\<close>

lemma int_multiple_of_ulp:
  assumes "0 < x" "x < 2 ^ 53"
  shows "\<exists>c::int. 1 / ulp x = of_int c \<and> 0 < c"
proof -
  have "x < 2 powi 53" using assms(2) by simp
  hence "ilog2 x < 53" using assms(1) by (intro ilog2_less)
  hence e: "max (ilog2 x) (- 1022) - 52 \<le> 0" by simp
  define k where "k = nat (- (max (ilog2 x) (- 1022) - 52))"
  have "max (ilog2 x) (- 1022) - 52 = - int k" using e by (simp add: k_def)
  hence "ulp x = 2 powi (- int k)" by (simp add: ulp_def)
  hence "1 / ulp x = 2 ^ k" by (simp add: power_int_minus_divide)
  hence "1 / ulp x = of_int (2 ^ k)" by simp
  moreover have "(0::int) < 2 ^ k" by simp
  ultimately show ?thesis by blast
qed

lemma floor_toDouble:
  assumes "0 < x" "x < 2 ^ 53"
    and gap: "ulp x / 2 < of_int (\<lfloor>x\<rfloor> + 1) - x"
  shows "\<exists>y. toDouble x = Finite y \<and> \<lfloor>y\<rfloor> = \<lfloor>x\<rfloor>"
proof -
  define u where "u = ulp x"
  define r where "r = round_half_even (x / u)"
  define y where "y = of_int r * u"
  define n where "n = \<lfloor>x\<rfloor>"
  have u: "0 < u" by (simp add: u_def ulp_pos)
  obtain c :: int where c: "1 / u = of_int c" "0 < c"
    using int_multiple_of_ulp [OF assms(1,2)] unfolding u_def by blast
  have n: "of_int n \<le> x" "x < of_int n + 1" "0 \<le> n"
    using assms(1) unfolding n_def by linarith+
  have "of_int (n * c) = of_int n * (1 / u)" by (simp add: c(1))
  also have "\<dots> \<le> x * (1 / u)" using n(1) u by (intro mult_right_mono) simp_all
  finally have "of_int (n * c) \<le> x / u" by simp
  hence "n * c \<le> r" unfolding r_def by (rule round_half_even_ge)
  hence "(of_int (n * c) :: rat) \<le> of_int r" by (simp only: of_int_le_iff)
  hence "of_int (n * c) * u \<le> of_int r * u" using u by (intro mult_right_mono) simp_all
  moreover have "of_int (n * c) * u = of_int n"
  proof -
    have "(1 / u) * u = 1" using u by simp
    hence cu: "of_int c * u = 1" by (simp only: c(1))
    have "of_int (n * c) * u = of_int n * (of_int c * u)" by (simp add: mult.assoc)
    thus ?thesis by (simp only: cu mult_1_right)
  qed
  ultimately have lo: "of_int n \<le> y" by (simp only: y_def)
  have "\<bar>of_int r - x / u\<bar> \<le> 1 / 2" unfolding r_def by (rule round_half_even_error)
  hence "\<bar>of_int r - x / u\<bar> * u \<le> (1 / 2) * u" using u by (intro mult_right_mono) simp_all
  moreover have "\<bar>of_int r - x / u\<bar> * u = \<bar>y - x\<bar>"
  proof -
    have "\<bar>of_int r - x / u\<bar> * u = \<bar>(of_int r - x / u) * u\<bar>" using u by (simp add: abs_mult)
    also have "(of_int r - x / u) * u = y - x" using u by (simp add: y_def algebra_simps)
    finally show ?thesis .
  qed
  ultimately have err: "\<bar>y - x\<bar> \<le> u / 2" by simp
  have "y - x \<le> u / 2" using err by linarith
  moreover have "u / 2 < of_int n + 1 - x" using gap by (simp add: u_def n_def)
  ultimately have hi: "y < of_int n + 1" by linarith
  have fl: "\<lfloor>y\<rfloor> = n" using lo hi by (simp add: floor_unique)
  have "(of_int n :: rat) < of_int (2 ^ 53)" using n(1) assms(2) by simp
  hence "n < 2 ^ 53" by (simp only: of_int_less_iff)
  hence "n + 1 \<le> 2 ^ 53" by simp
  hence "(of_int (n + 1) :: rat) \<le> of_int (2 ^ 53)" by (simp only: of_int_le_iff)
  hence "of_int n + 1 \<le> (2::rat) ^ 53" by simp
  hence "y < 2 ^ 53" using hi by simp
  moreover have "(2::rat) ^ 53 \<le> 2 ^ 1024" by (rule power_increasing) simp_all
  ultimately have "\<not> 2 ^ 1024 \<le> y" by simp
  hence "toDouble x = Finite y"
    using assms(1) by (simp add: toDouble_def Let_def y_def r_def u_def)
  thus ?thesis using fl by (simp add: n_def)
qed

section \<open>The quotient of \<open>sectorFromAngle\<close>\<close>

text \<open>For a double below \<open>2 ^ 44\<close> the next sector boundary is at least one unit in
  the last place away, which is more than the rounding of the quotient can bridge: the
  floor of the rounded quotient is the floor of the exact one.\<close>

lemma powi_split: "(2::rat) powi (a + b) = 2 powi a * 2 powi b"
  by (rule power_int_add) simp

lemma powi_split_diff: "(2::rat) powi (a - b) = 2 powi a / 2 powi b"
  by (rule power_int_diff) simp

lemma step_over_ulp:
  assumes "0 < a" "a < 2 ^ 44" "B \<le> 12"
  shows "\<exists>c::int. (360 / 2 ^ B) / ulp a = of_int c"
proof -
  have "a < 2 powi 44" using assms(2) by simp
  hence "ilog2 a < 44" using assms(1) by (intro ilog2_less)
  define E where "E = max (ilog2 a) (- 1022)"
  have E: "E \<le> 43" using \<open>ilog2 a < 44\<close> by (simp add: E_def)
  define k where "k = nat (55 - E - int B)"
  have k: "int k = 55 - E - int B" using E assms(3) by (simp add: k_def)
  have "(2::rat) powi (int k) = 2 powi (3 + (52 - E) - int B)" by (simp add: k algebra_simps)
  also have "\<dots> = 2 powi 3 * 2 powi (52 - E) / 2 powi (int B)"
    by (simp only: powi_split powi_split_diff)
  also have "(2::rat) powi (52 - E) = 1 / 2 powi (E - 52)"
    using power_int_minus_divide [of "2::rat" "E - 52"] by simp
  finally have "(2::rat) ^ k = 8 / 2 powi (E - 52) / 2 ^ B" by simp
  hence "45 * (2::rat) ^ k = (360 / 2 ^ B) / ulp a"
    by (simp add: ulp_def E_def)
  hence "(360 / 2 ^ B) / ulp a = of_int (45 * 2 ^ k)" by simp
  thus ?thesis ..
qed

lemma double_multiple_of_ulp:
  assumes "0 < a" "is_double a"
  shows "\<exists>r::int. a = of_int r * ulp a"
proof -
  let ?y = "of_int (round_half_even (a / ulp a)) * ulp a"
  have "toDouble a = Finite a" using assms(2) by (simp add: is_double_def)
  hence "?y = a" using assms(1)
    by (auto simp: toDouble_def Let_def split: if_splits)
  thus ?thesis by (intro exI [of _ "round_half_even (a / ulp a)"]) simp
qed


lemma step_bounds:
  fixes B :: nat
  shows "2 powi (8 - int B) \<le> (360::rat) / 2 ^ B" "(360::rat) / 2 ^ B < 2 powi (9 - int B)"
proof -
  have "(2::rat) powi (8 - int B) = 256 / 2 ^ B" by (simp add: powi_split_diff)
  thus "2 powi (8 - int B) \<le> (360::rat) / 2 ^ B" by (simp add: divide_right_mono)
  have "(2::rat) powi (9 - int B) = 512 / 2 ^ B" by (simp add: powi_split_diff)
  thus "(360::rat) / 2 ^ B < 2 powi (9 - int B)" by (simp add: divide_strict_right_mono)
qed

lemma quotient_gap:
  fixes B :: nat
  assumes "0 < a" "a < 2 ^ 44" "is_double a" "B \<le> 12"
  defines "x \<equiv> a / (360 / 2 ^ B)"
  shows "ulp x / 2 < of_int (\<lfloor>x\<rfloor> + 1) - x"
proof -
  define s :: rat where "s = 360 / 2 ^ B"
  have s: "0 < s" by (simp add: s_def)
  have x: "x = a / s" "0 < x" using assms(1) s by (simp_all add: x_def s_def)
  have xs: "x * s = a" using s by (simp add: x(1))
  define m where "m = \<lfloor>x\<rfloor> + 1"
  have m: "x < of_int m" unfolding m_def by linarith
  define e where "e = ilog2 x"
  have e: "2 powi e \<le> x" "x < 2 powi (e + 1)" using ilog2_bounds [OF x(2)] by (simp_all add: e_def)
  obtain r :: int where r: "a = of_int r * ulp a"
    using double_multiple_of_ulp [OF assms(1,3)] by blast
  obtain c :: int where c: "s / ulp a = of_int c"
    using step_over_ulp [OF assms(1,2,4)] unfolding s_def by blast
  have ua: "0 < ulp a" by (rule ulp_pos)
  \<comment> \<open>the next sector boundary is at least one unit in the last place above the angle\<close>
  have "(of_int m * s - a) / ulp a = of_int m * (s / ulp a) - a / ulp a"
    by (simp add: diff_divide_distrib)
  also have "a / ulp a = of_int r"
  proof -
    have "of_int r * ulp a / ulp a = (of_int r :: rat)" using ua by simp
    thus ?thesis by (simp only: r [symmetric])
  qed
  finally have q: "(of_int m * s - a) / ulp a = of_int (m * c - r)" by (simp add: c)
  have "x * s < of_int m * s" using m s by (rule mult_strict_right_mono)
  hence "0 < of_int m * s - a" by (simp add: xs)
  hence "0 < (of_int m * s - a) / ulp a" using ua by simp
  hence "(0::rat) < of_int (m * c - r)" by (simp only: q)
  hence "0 < m * c - r" by (simp only: of_int_0_less_iff)
  hence "1 \<le> m * c - r" by simp
  hence "(1::rat) \<le> of_int (m * c - r)" by (simp only: of_int_1_le_iff)
  hence "1 \<le> (of_int m * s - a) / ulp a" by (simp only: q)
  hence d1: "ulp a \<le> of_int m * s - a" using ua by (simp add: pos_le_divide_eq)
  \<comment> \<open>that unit is large compared with the quotient\<close>
  have "2 powi (e + (8 - int B)) = 2 powi e * (2::rat) powi (8 - int B)" by (rule powi_split)
  also have "\<dots> \<le> x * s"
    using e(1) step_bounds(1) [of B] x(2) unfolding s_def by (intro mult_mono) simp_all
  finally have "2 powi (e + (8 - int B)) \<le> a" by (simp only: xs)
  hence "e + (8 - int B) \<le> ilog2 a" using assms(1) by (intro ilog2_ge)
  hence "(2::rat) powi (e + (8 - int B) - 52) \<le> 2 powi (ilog2 a - 52)"
    by (simp add: powi2_le_iff)
  also have "\<dots> \<le> ulp a" by (rule ulp_ge)
  finally have d2: "2 powi (e + (8 - int B) - 52) \<le> of_int m * s - a" using d1 by simp
  have "of_int m * s - a = of_int m * s - x * s" by (simp only: xs)
  also have "\<dots> = (of_int m - x) * s" by (simp add: left_diff_distrib)
  finally have "of_int m * s - a = (of_int m - x) * s" .
  hence d3: "2 powi (e + (8 - int B) - 52) \<le> (of_int m - x) * s" using d2 by simp
  have "(of_int m - x) * s < (of_int m - x) * 2 powi (9 - int B)"
    using m step_bounds(2) [of B] unfolding s_def by (intro mult_strict_left_mono) simp_all
  hence "2 powi (e + (8 - int B) - 52) < (of_int m - x) * 2 powi (9 - int B)"
    using d3 by simp
  moreover have "(2::rat) powi (e + (8 - int B) - 52) = 2 powi (e - 53) * 2 powi (9 - int B)"
    by (simp flip: powi_split)
  ultimately have "2 powi (e - 53) * 2 powi (9 - int B) < (of_int m - x) * 2 powi (9 - int B)"
    by simp
  hence main: "2 powi (e - 53) < of_int m - x" by simp
  show ?thesis
  proof (cases "- 1022 \<le> e")
    case True
    hence "ulp x = 2 powi (e - 52)" by (simp add: ulp_def e_def)
    also have "\<dots> = 2 powi (e - 53) * 2" using powi_split [of "e - 53" 1] by simp
    finally show ?thesis using main by (simp add: m_def)
  next
    case False
    hence "e + 1 \<le> - 1" by simp
    hence "(2::rat) powi (e + 1) \<le> 2 powi (- 1)" by (simp only: powi2_le_iff)
    hence xh: "x < 1 / 2" using e(2) by simp
    hence "\<lfloor>x\<rfloor> = 0" using x(2) by (intro floor_unique) simp_all
    moreover have "ulp x \<le> 1"
    proof -
      have "ulp x = 2 powi (- 1074)" using False by (simp add: ulp_def e_def)
      also have "\<dots> \<le> 2 powi 0" by (simp only: powi2_le_iff)
      finally show ?thesis by simp
    qed
    ultimately show ?thesis using xh by simp
  qed
qed

lemma quotient_below_2p53:
  fixes B :: nat and a :: rat
  assumes "0 < a" "a < 2 ^ 44" "B \<le> 12"
  shows "a / (360 / 2 ^ B) < 2 ^ 53"
proof -
  have "(2::rat) ^ B \<le> 2 ^ 12" using assms(3) by (intro power_increasing) simp_all
  hence "a * 2 ^ B \<le> a * (2::rat) ^ 12" using assms(1) by (intro mult_left_mono) simp_all
  also have "\<dots> < 2 ^ 44 * (2::rat) ^ 12" using assms(2) by (intro mult_strict_right_mono) simp_all
  finally have "a * 2 ^ B / 360 < 2 ^ 44 * 2 ^ 12 / 360" by (intro divide_strict_right_mono) simp_all
  also have "\<dots> < (2::rat) ^ 53" by simp
  finally show ?thesis by simp
qed

section \<open>The sector under the read head\<close>

lemma floor_normalized:
  fixes angle :: rat
  shows "\<lfloor>(angle - 360 * of_int \<lfloor>angle / 360\<rfloor>) / (360 / 2 ^ n)\<rfloor> mod 2 ^ n
           = \<lfloor>angle / (360 / 2 ^ n)\<rfloor> mod 2 ^ n"
proof -
  let ?t = "\<lfloor>angle / 360\<rfloor>"
  have "angle / (360 / 2 ^ n) = (angle - 360 * of_int ?t) / (360 / 2 ^ n) + of_int (?t * 2 ^ n)"
    by (simp add: field_simps)
  hence "\<lfloor>angle / (360 / 2 ^ n)\<rfloor> = \<lfloor>(angle - 360 * of_int ?t) / (360 / 2 ^ n)\<rfloor> + ?t * 2 ^ n"
    by (simp only: floor_add_int)
  thus ?thesis by simp
qed

lemma round_half_even_of_int: "round_half_even (of_int k) = k"
  by (simp add: round_half_even_def)

lemma ilog2_unique:
  assumes "0 < x" "2 powi e \<le> x" "x < 2 powi (e + 1)"
  shows "ilog2 x = e"
proof -
  have "e \<le> ilog2 x" using assms(1,2) by (rule ilog2_ge)
  moreover have "ilog2 x < e + 1" using assms(1,3) by (rule ilog2_less)
  ultimately show ?thesis by simp
qed

lemma toDouble_representable:
  assumes "0 < x" "2 powi e \<le> x" "x < 2 powi (e + 1)" "- 1022 \<le> e"
    and "x = of_int r * 2 powi (e - 52)" "x < 2 ^ 1024"
  shows "toDouble x = Finite x"
proof -
  have "ilog2 x = e" using assms(1-3) by (rule ilog2_unique)
  hence u: "ulp x = 2 powi (e - 52)" using assms(4) by (simp add: ulp_def)
  have "x / ulp x = of_int r" unfolding u by (subst assms(5)) simp
  hence "of_int (round_half_even (x / ulp x)) * ulp x = x"
    by (simp only: round_half_even_of_int u assms(5) [symmetric])
  thus ?thesis using assms(1,6) by (simp add: toDouble_def Let_def)
qed

lemma step_is_double:
  fixes B :: nat
  assumes that: "B \<le> 12"
  shows "toDouble (360 / 2 ^ B) = Finite (360 / 2 ^ B)"
proof (rule toDouble_representable [where e = "8 - int B" and r = "360 * 2 ^ 44"])
  show "(0::rat) < 360 / 2 ^ B" by simp
  show "2 powi (8 - int B) \<le> (360::rat) / 2 ^ B" by (rule step_bounds(1))
  have "(360::rat) / 2 ^ B < 2 powi (9 - int B)" by (rule step_bounds(2))
  thus "(360::rat) / 2 ^ B < 2 powi (8 - int B + 1)" by (simp add: add.commute)
  show "- 1022 \<le> 8 - int B" using that by simp
  have "8 - int B - 52 = - 44 - int B" by simp
  hence "(2::rat) powi (8 - int B - 52) = 2 powi (- 44) / 2 powi (int B)"
    by (simp only: powi_split_diff)
  also have "(2::rat) powi (- 44) = 1 / 2 ^ 44" by (simp add: power_int_minus_divide)
  finally show "(360::rat) / 2 ^ B = of_int (360 * 2 ^ 44) * 2 powi (8 - int B - 52)"
    by simp
  have "(360::rat) / 2 ^ B \<le> 360 / 1" by (intro divide_left_mono) simp_all
  also have "\<dots> < 2 ^ 1024" by simp
  finally show "(360::rat) / 2 ^ B < 2 ^ 1024" .
qed


lemma floor_quotient_exact:
  fixes B :: nat
  assumes "is_double a" "0 \<le> a" "a < 2 ^ 44" "B \<le> 12"
  shows "\<exists>y. toDouble (a / (360 / 2 ^ B)) = Finite y \<and> \<lfloor>y\<rfloor> = \<lfloor>a / (360 / 2 ^ B)\<rfloor>"
proof (cases "a = 0")
  case True
  then show ?thesis by (simp add: toDouble_def)
next
  case False
  hence a: "0 < a" using assms(2) by simp
  have "0 < a / (360 / 2 ^ B)" using a by simp
  moreover have "a / (360 / 2 ^ B) < 2 ^ 53" using a assms(3,4) by (rule quotient_below_2p53)
  moreover have "ulp (a / (360 / 2 ^ B)) / 2
                   < of_int (\<lfloor>a / (360 / 2 ^ B)\<rfloor> + 1) - a / (360 / 2 ^ B)"
    using a assms(3,1,4) by (rule quotient_gap)
  ultimately show ?thesis by (rule floor_toDouble)
qed

lemma sectorFromAngle_exact:
  assumes "1 \<le> bits" "bits \<le> 12" "is_double a" "0 \<le> a" "a < 2 ^ 44"
  shows "sectorFromAngle (Finite a) bits
           = Finite (of_int (\<lfloor>a / (360 / 2 ^ nat bits)\<rfloor> mod 2 ^ nat bits))"
proof -
  define B where "B = nat bits"
  define S :: int where "S = 2 ^ B"
  have B: "B \<le> 12" using assms(2) by (simp add: B_def)
  have shl: "js_shl 1 bits = S" unfolding S_def B_def using assms(1,2) by (intro js_shl_1) simp_all
  have S: "0 < S" "(of_int S :: rat) = 2 ^ B" by (simp_all add: S_def)
  have step: "js_div (Finite 360) (Finite (of_int S)) = Finite (360 / 2 ^ B)"
    using step_is_double [OF B] by (simp add: js_div_def S(2))
  obtain y where y: "toDouble (a / (360 / 2 ^ B)) = Finite y" "\<lfloor>y\<rfloor> = \<lfloor>a / (360 / 2 ^ B)\<rfloor>"
    using floor_quotient_exact [OF assms(3-5) B] by blast
  have q: "js_div (Finite a) (Finite (360 / 2 ^ B)) = Finite y"
    using y(1) by (simp add: js_div_def)
  define n where "n = \<lfloor>a / (360 / 2 ^ B)\<rfloor>"
  have n: "0 \<le> n" using assms(4) by (simp add: n_def)
  have "js_rem (of_int n) (of_int S) = of_int (js_rem_int n S)"
    using S(1) by (rule js_rem_of_int)
  also have "js_rem_int n S = n mod S" using n S(1) by (rule js_rem_int_nonneg)
  finally have r: "js_rem (of_int n) (of_int S) = of_int (n mod S)" .
  have "sectorFromAngle (Finite a) bits = js_mod (js_floor (Finite y)) (Finite (of_int S))"
    by (simp only: sectorFromAngle_def shl Let_def step q)
  also have "\<dots> = Finite (js_rem (of_int n) (of_int S))"
    using S(1) by (simp add: js_floor_def js_mod_def y(2) n_def)
  finally have "sectorFromAngle (Finite a) bits = Finite (js_rem (of_int n) (of_int S))" .
  hence "sectorFromAngle (Finite a) bits = Finite (of_int (n mod S))" by (simp only: r)
  thus ?thesis by (simp only: n_def S_def B_def)
qed

text \<open>
  C4, as amended. For every angle that is a double with \<open>0 \<le> angle < 2 ^ 44\<close> and every
  \<open>bits\<close> from 1 to 12, \<open>sectorFromAngle(angle, bits)\<close> is
  \<open>floor(angle / (360 / 2 ^ bits)) mod 2 ^ bits\<close> with the quotient taken exactly,
  computed on the angle as it is given, with no reduction into \<open>[0, 360)\<close> first; on
  these angles that is also the value for the angle reduced into \<open>[0, 360)\<close>. The
  result is a sector index from 0 to \<open>2 ^ bits - 1\<close>; the angle that is exactly 360
  more, when it is a double below \<open>2 ^ 44\<close> too, has the same sector; and
  \<open>sectorFromAngle(0, bits)\<close> is 0.
\<close>

theorem sectorFromAngle_bounded_angle:
  assumes "1 \<le> bits" "bits \<le> 12" "is_double angle" "0 \<le> angle" "angle < 2 ^ 44"
  shows "sectorFromAngle (Finite angle) bits
           = Finite (of_int (\<lfloor>angle / (360 / 2 ^ nat bits)\<rfloor> mod 2 ^ nat bits))
         \<and> \<lfloor>angle / (360 / 2 ^ nat bits)\<rfloor> mod 2 ^ nat bits
             = \<lfloor>(angle - 360 * of_int \<lfloor>angle / 360\<rfloor>) / (360 / 2 ^ nat bits)\<rfloor> mod 2 ^ nat bits
         \<and> (\<exists>k. sectorFromAngle (Finite angle) bits = Finite (of_int k)
                \<and> 0 \<le> k \<and> k \<le> 2 ^ nat bits - 1)
         \<and> (is_double (angle + 360) \<and> angle + 360 < 2 ^ 44 \<longrightarrow>
                sectorFromAngle (Finite (angle + 360)) bits = sectorFromAngle (Finite angle) bits)
         \<and> sectorFromAngle (Finite 0) bits = Finite 0"
proof -
  let ?S = "(2::int) ^ nat bits"
  let ?step = "360 / (2::rat) ^ nat bits"
  let ?n = "\<lfloor>angle / ?step\<rfloor> mod ?S"
  have eq: "sectorFromAngle (Finite angle) bits = Finite (of_int ?n)"
    using assms by (rule sectorFromAngle_exact)
  have norm: "?n = \<lfloor>(angle - 360 * of_int \<lfloor>angle / 360\<rfloor>) / ?step\<rfloor> mod ?S"
    by (rule floor_normalized [symmetric])
  have lo: "0 \<le> ?n" by simp
  have "?n < ?S" by simp
  hence hi: "?n \<le> ?S - 1" by simp
  have range: "\<exists>k. sectorFromAngle (Finite angle) bits = Finite (of_int k)
                 \<and> 0 \<le> k \<and> k \<le> ?S - 1"
    using eq lo hi by blast
  have per: "sectorFromAngle (Finite (angle + 360)) bits = sectorFromAngle (Finite angle) bits"
    if d: "is_double (angle + 360)" and b: "angle + 360 < 2 ^ 44"
  proof -
    have "0 \<le> angle + 360" using assms(4) by simp
    with assms(1,2) d have "sectorFromAngle (Finite (angle + 360)) bits
            = Finite (of_int (\<lfloor>(angle + 360) / ?step\<rfloor> mod ?S))"
      using b by (rule sectorFromAngle_exact)
    moreover have "(angle + 360) / ?step = angle / ?step + of_int ?S"
      by (simp add: field_simps)
    hence "\<lfloor>(angle + 360) / ?step\<rfloor> = \<lfloor>angle / ?step\<rfloor> + ?S"
      by (simp only: floor_add_int)
    hence "\<lfloor>(angle + 360) / ?step\<rfloor> mod ?S = ?n" by simp
    ultimately show ?thesis by (simp only: eq)
  qed
  have z: "is_double 0" by (simp add: is_double_def toDouble_def)
  have zero: "sectorFromAngle (Finite 0) bits = Finite 0"
    using sectorFromAngle_exact [OF assms(1,2) z] by simp
  show ?thesis using eq norm range per zero by blast
qed

theorem sectorFromAngle_bounded_angle_witness:
  "(1::int) \<le> 2 \<and> (2::int) \<le> 12 \<and> is_double 350 \<and> (0::rat) \<le> 350 \<and> (350::rat) < 2 ^ 44
   \<and> is_double (350 + 360) \<and> (350 + 360 :: rat) < 2 ^ 44
   \<and> sectorFromAngle (Finite 350) 2 = Finite 3
   \<and> sectorFromAngle (Finite (350 + 360)) 2 = Finite 3
   \<and> sectorFromAngle (Finite 0) 2 = Finite 0
   \<and> is_double (45 - 1 / 2 ^ 47) \<and> (0::rat) \<le> 45 - 1 / 2 ^ 47 \<and> (45 - 1 / 2 ^ 47 :: rat) < 2 ^ 44
   \<and> sectorFromAngle (Finite (45 - 1 / 2 ^ 47)) 3 = Finite 0"
proof -
  have d: "is_double 350" "is_double (350 + 360)" "is_double (45 - 1 / 2 ^ 47)" by code_simp+
  have f: "\<lfloor>(350::rat) / (360 / 2 ^ nat 2)\<rfloor> mod 2 ^ nat 2 = 3"
    "\<lfloor>(45 - 1 / 2 ^ 47 :: rat) / (360 / 2 ^ nat 3)\<rfloor> mod 2 ^ nat 3 = 0" by code_simp+
  have b: "(0::rat) \<le> 45 - 1 / 2 ^ 47" "(45 - 1 / 2 ^ 47 :: rat) < 2 ^ 44" by simp_all
  have w1: "sectorFromAngle (Finite 350) 2 = Finite 3
            \<and> sectorFromAngle (Finite (350 + 360)) 2 = Finite 3
            \<and> sectorFromAngle (Finite 0) 2 = Finite 0"
    using sectorFromAngle_bounded_angle [of 2 350] d(1,2) f(1) by simp
  have w2: "sectorFromAngle (Finite (45 - 1 / 2 ^ 47)) 3 = Finite 0"
    using sectorFromAngle_bounded_angle [OF _ _ d(3) b, of 3] f(2) by simp
  show ?thesis using d b w1 w2 by simp
qed

text \<open>The claim as stated fails on negative angles: the remainder \<open>%\<close> keeps the sign of
  the dividend, so \<open>sectorFromAngle(-10, 2)\<close> is \<open>-1\<close>, while \<open>sectorFromAngle(350, 2)\<close>
  is 3.\<close>

theorem sectorFromAngle_negative_counterexample:
  "is_double (- 10) \<and> sectorFromAngle (Finite (- 10)) 2 = Finite (- 1)
   \<and> is_double 350 \<and> sectorFromAngle (Finite 350) 2 = Finite 3"
  by code_simp

text \<open>Beyond the bound the rounding shows: at \<open>10 ^ 18\<close> with 3 bits the rounded
  quotient gives sector 0 where the exact one gives 6; the sum of 360 and the double
  just below 45 is rounded to 405, one sector further; and a quotient that overflows
  gives \<open>NaN\<close>.\<close>

lemma toDouble_overflow:
  assumes "2 ^ 1025 \<le> x"
  shows "toDouble x = PosInfinity"
proof -
  have x: "0 < x" using assms by (rule less_le_trans [rotated]) simp
  define u where "u = ulp x"
  define y where "y = of_int (round_half_even (x / u)) * u"
  have u: "0 < u" by (simp add: u_def ulp_pos)
  have "(2::rat) powi 1025 \<le> x" using assms by simp
  hence e: "1025 \<le> ilog2 x" using x by (intro ilog2_ge)
  hence "u = 2 powi (ilog2 x - 52)" by (simp add: u_def ulp_def)
  also have "\<dots> \<le> 2 powi (ilog2 x)" by (simp only: powi2_le_iff)
  also have "\<dots> \<le> x" using ilog2_bounds [OF x] by simp
  finally have ux: "u \<le> x" .
  have "\<bar>of_int (round_half_even (x / u)) - x / u\<bar> \<le> 1 / 2" by (rule round_half_even_error)
  hence "x / u - 1 / 2 \<le> of_int (round_half_even (x / u))" by linarith
  hence "(x / u - 1 / 2) * u \<le> y" unfolding y_def using u by (intro mult_right_mono) simp_all
  moreover have "(x / u - 1 / 2) * u = x - u / 2" using u by (simp add: left_diff_distrib)
  ultimately have "x - u / 2 \<le> y" by simp
  hence "x / 2 \<le> y" using ux by linarith
  moreover have "(2::rat) ^ 1024 \<le> x / 2" using assms by simp
  ultimately have "2 ^ 1024 \<le> y" by linarith
  thus ?thesis using x by (simp add: toDouble_def Let_def y_def u_def)
qed

lemma sectorFromAngle_overflow:
  assumes "1 \<le> bits" "bits \<le> 12" "2 ^ 1025 \<le> a / (360 / 2 ^ nat bits)"
  shows "sectorFromAngle (Finite a) bits = NaN"
proof -
  define B where "B = nat bits"
  define S :: int where "S = 2 ^ B"
  have B: "B \<le> 12" using assms(2) by (simp add: B_def)
  have shl: "js_shl 1 bits = S" unfolding S_def B_def using assms(1,2) by (intro js_shl_1) simp_all
  have S: "(of_int S :: rat) = 2 ^ B" by (simp add: S_def)
  have step: "js_div (Finite 360) (Finite (of_int S)) = Finite (360 / 2 ^ B)"
    using step_is_double [OF B] by (simp add: js_div_def S)
  have "toDouble (a / (360 / 2 ^ B)) = PosInfinity"
    using assms(3) unfolding B_def by (rule toDouble_overflow)
  hence q: "js_div (Finite a) (Finite (360 / 2 ^ B)) = PosInfinity"
    by (simp add: js_div_def)
  have "sectorFromAngle (Finite a) bits = js_mod (js_floor PosInfinity) (Finite (of_int S))"
    by (simp only: sectorFromAngle_def shl Let_def step q)
  thus ?thesis by (simp add: js_floor_def js_mod_def)
qed

lemma sectorFromAngle_overflow_example: "sectorFromAngle (Finite (2 ^ 1023)) 12 = NaN"
  by (rule sectorFromAngle_overflow) simp_all

lemma sectorFromAngle_rounding_examples:
  "is_double (10 ^ 18) \<and> sectorFromAngle (Finite (10 ^ 18)) 3 = Finite 0
   \<and> \<lfloor>(10 ^ 18 :: rat) / (360 / 2 ^ 3)\<rfloor> mod 2 ^ 3 = 6
   \<and> is_double (45 - 1 / 2 ^ 47) \<and> sectorFromAngle (Finite (45 - 1 / 2 ^ 47)) 3 = Finite 0
   \<and> js_add (Finite (45 - 1 / 2 ^ 47)) (Finite 360) = Finite 405
   \<and> sectorFromAngle (Finite 405) 3 = Finite 1"
  by code_simp

section \<open>The ring width of the disc\<close>

lemma discBits_range: "1 \<le> discBits raw \<and> discBits raw \<le> 12"
  by (simp add: discBits_def)

lemma ringWidth_pos_iff:
  assumes "1 \<le> bits"
  shows "0 < ringWidth W H bits \<longleftrightarrow> 8 * bits + 72 < min W H"
proof -
  have b: "(0::rat) < of_int bits" using assms by simp
  have "0 < ringWidth W H bits \<longleftrightarrow> (0::rat) < of_int (min W H) / 2 - 20 - 20 - (of_int bits - 1) * 4"
    using b by (simp add: ringWidth_def rOuter_def ringGap_def zero_less_divide_iff)
  also have "\<dots> \<longleftrightarrow> (of_int (8 * bits + 72) :: rat) < of_int (min W H)"
    by (simp add: field_simps)
  also have "\<dots> \<longleftrightarrow> 8 * bits + 72 < min W H" by (simp only: of_int_less_iff)
  finally show ?thesis .
qed

text \<open>
  C9, as amended. For the bit width that the disc renderer uses, which is clamped to
  1 to 12, the ring width that the rings are drawn with (\<open>r1 - r0\<close>) is the value of
  \<open>(rOuter - 20 - (bits - 1) * ringGap) / bits\<close> itself; no minimum is applied to it. It
  is positive exactly when the smaller side of the canvas is more than
  \<open>8 * bits + 72\<close> pixels, hence for every bit width when that side is more than 168.
\<close>

theorem ringWidth_unclamped:
  "1 \<le> discBits raw \<and> discBits raw \<le> 12
   \<and> r1 W H (discBits raw) k - r0 W H (discBits raw) k = ringWidth W H (discBits raw)
   \<and> ringWidth W H (discBits raw)
       = (rOuter W H - 20 - (of_int (discBits raw) - 1) * ringGap) / of_int (discBits raw)
   \<and> (0 < ringWidth W H (discBits raw) \<longleftrightarrow> 8 * discBits raw + 72 < min W H)
   \<and> (168 < min W H \<longrightarrow> 0 < ringWidth W H (discBits raw))"
proof -
  note r = discBits_range [of raw]
  have iff: "0 < ringWidth W H (discBits raw) \<longleftrightarrow> 8 * discBits raw + 72 < min W H"
    using r by (intro ringWidth_pos_iff) simp
  have "8 * discBits raw + 72 \<le> 168" using r by simp
  hence "168 < min W H \<longrightarrow> 0 < ringWidth W H (discBits raw)" using iff by simp
  thus ?thesis using r iff by (simp add: r0_def ringWidth_def)
qed

theorem ringWidth_unclamped_witness:
  "discBits 12 = 12 \<and> (168::int) < min 400 400 \<and> 0 < ringWidth 400 400 12
   \<and> discBits 99 = 12 \<and> discBits (- 5) = 1 \<and> 0 < ringWidth 400 400 1"
proof -
  have d: "discBits 12 = 12" "discBits 99 = 12" "discBits (- 5) = 1" by (simp_all add: discBits_def)
  show ?thesis
    using ringWidth_unclamped [of 12 400 400 0] ringWidth_unclamped [of "- 5" 400 400 0]
    by (simp add: d)
qed

text \<open>The claim as stated fails: on a canvas of 300 by 150 pixels and 12 bits the ring
  width that is drawn with is \<open>-0.75\<close>.\<close>

theorem ringWidth_default_canvas_counterexample:
  "discBits 12 = 12 \<and> ringWidth 300 150 (discBits 12) = - (3 / 4)
   \<and> r1 300 150 (discBits 12) 0 - r0 300 150 (discBits 12) 0 = - (3 / 4)
   \<and> \<not> 0 < ringWidth 300 150 (discBits 12)"
  by code_simp

section \<open>\<open>pad\<close> on values that fit the width\<close>

lemma length_bits_of [simp]: "length (bits_of k x) = k"
  by (induction k arbitrary: x) simp_all

lemma bits_of_zero: "bits_of k 0 = replicate k 0x30"
  by (induction k) (simp_all add: replicate_append_same)

lemma bin_digits_length:
  assumes "0 \<le> x" "x < 2 ^ k" "0 < k"
  shows "length (bin_digits x) \<le> k"
  using assms
proof (induction k arbitrary: x)
  case 0
  then show ?case by simp
next
  case (Suc k)
  show ?case
  proof (cases "x < 2")
    case True
    then show ?thesis by simp
  next
    case False
    hence k: "0 < k" using Suc.prems(2) by (cases k) simp_all
    have "0 \<le> x div 2" "x div 2 < 2 ^ k" using Suc.prems by simp_all
    hence "length (bin_digits (x div 2)) \<le> k" using k by (intro Suc.IH)
    moreover have "bin_digits x = bin_digits (x div 2) @ [0x30 + word_of_int (x mod 2)]"
      using False by (subst bin_digits.simps) simp
    ultimately show ?thesis by simp
  qed
qed

lemma pad_bits_of:
  assumes "0 \<le> x" "x < 2 ^ k" "0 < k"
  shows "pad x (int k) = bits_of k x"
  using assms
proof (induction k arbitrary: x)
  case 0
  then show ?case by simp
next
  case (Suc k)
  show ?case
  proof (cases "x < 2")
    case True
    hence "x div 2 = 0" "x mod 2 = x" using Suc.prems(1) by simp_all
    thus ?thesis using True Suc.prems(1)
      by (simp add: pad_def padStart_def toString2_def bits_of_zero)
  next
    case False
    hence k: "0 < k" using Suc.prems(2) by (cases k) simp_all
    have h: "0 \<le> x div 2" "x div 2 < 2 ^ k" using Suc.prems by simp_all
    hence IH: "pad (x div 2) (int k) = bits_of k (x div 2)" using k by (intro Suc.IH)
    have len: "length (bin_digits (x div 2)) \<le> k" using h k by (rule bin_digits_length)
    have unf: "bin_digits x = bin_digits (x div 2) @ [0x30 + word_of_int (x mod 2)]"
      using False by (subst bin_digits.simps) simp
    have "pad x (int (Suc k)) = replicate (Suc k - length (bin_digits x)) 0x30 @ bin_digits x"
      using Suc.prems(1) by (simp add: pad_def padStart_def toString2_def del: bin_digits.simps)
    also have "\<dots> = (replicate (k - length (bin_digits (x div 2))) 0x30 @ bin_digits (x div 2))
                     @ [0x30 + word_of_int (x mod 2)]"
      by (simp add: unf del: bin_digits.simps)
    also have "replicate (k - length (bin_digits (x div 2))) 0x30 @ bin_digits (x div 2)
                 = pad (x div 2) (int k)"
      using h(1) by (simp add: pad_def padStart_def toString2_def del: bin_digits.simps)
    finally show ?thesis using IH by simp
  qed
qed

section \<open>The reflected construction and the closed form\<close>

lemma bits_of_msb0:
  assumes "0 \<le> x" "x < 2 ^ k"
  shows "bits_of (Suc k) x = 0x30 # bits_of k x"
  using assms
proof (induction k arbitrary: x)
  case 0
  then have "x = 0" by simp
  then show ?case by simp
next
  case (Suc k)
  have h: "0 \<le> x div 2" "x div 2 < 2 ^ k" using Suc.prems by simp_all
  have "bits_of (Suc (Suc k)) x = bits_of (Suc k) (x div 2) @ [0x30 + word_of_int (x mod 2)]"
    by simp
  also have "bits_of (Suc k) (x div 2) = 0x30 # bits_of k (x div 2)"
    using h by (rule Suc.IH)
  finally show ?case by simp
qed

lemma bits_of_msb1:
  assumes "0 \<le> x" "x < 2 ^ k"
  shows "bits_of (Suc k) (2 ^ k + x) = 0x31 # bits_of k x"
  using assms
proof (induction k arbitrary: x)
  case 0
  then have "x = 0" by simp
  then show ?case by simp
next
  case (Suc k)
  have h: "0 \<le> x div 2" "x div 2 < 2 ^ k" using Suc.prems by simp_all
  have d: "(2 ^ Suc k + x) div 2 = 2 ^ k + x div 2" "(2 ^ Suc k + x) mod 2 = x mod 2"
    by simp_all
  have "bits_of (Suc (Suc k)) (2 ^ Suc k + x)
          = bits_of (Suc k) (2 ^ k + x div 2) @ [0x30 + word_of_int (x mod 2)]"
    by (simp only: bits_of.simps d)
  also have "bits_of (Suc k) (2 ^ k + x div 2) = 0x31 # bits_of k (x div 2)"
    using h by (rule Suc.IH)
  finally show ?case by simp
qed

lemma gray_bound: "0 \<le> v \<Longrightarrow> v < 2 ^ k \<Longrightarrow> 0 \<le> gray v \<and> gray v < 2 ^ k"
proof -
  assume a: "0 \<le> v" "v < 2 ^ k"
  hence "0 \<le> v div 2" "v div 2 < 2 ^ k" by simp_all
  with a show ?thesis unfolding gray_def by (intro xor_small)
qed

lemma reflect_index:
  fixes j :: int
  assumes "0 \<le> j" "j < 2 ^ n"
  shows "2 ^ n - 1 - j = mask n XOR j"
proof -
  have tb: "take_bit n j = j" using assms by (simp add: take_bit_int_eq_self)
  hence "mask n XOR j = mask n XOR take_bit n j" by simp
  also have "\<dots> = take_bit n (NOT j)"
    by (rule bit_eqI) (auto simp: bit_simps)
  also have "\<dots> = mask n - take_bit n j" by (rule take_bit_not_eq_mask_diff)
  finally show ?thesis using tb by (simp add: mask_eq_exp_minus_1)
qed

lemma pow2_plus_xor:
  fixes g :: int
  assumes "0 \<le> g" "g < 2 ^ k"
  shows "2 ^ k XOR g = 2 ^ k + g"
proof -
  have tb: "take_bit k g = g" using assms by (simp add: take_bit_int_eq_self)
  have "\<not> bit g k" using bit_take_bit_iff [of k g k] tb by simp
  hence "g AND 2 ^ k = 0" by (simp add: and_exp_eq_0_iff_not_bit)
  hence "2 ^ k AND g = 0" by (simp only: and.commute)
  thus ?thesis by (rule disjunctive_add_eq_xor [symmetric])
qed

text \<open>The Gray code of the mirror image of \<open>j\<close> among \<open>k + 1\<close> bits is the Gray code of
  \<open>j\<close> with bit \<open>k\<close> set: this is the reflection step of the construction.\<close>

lemma gray_reflect:
  fixes j :: int
  assumes "0 \<le> j" "j < 2 ^ k"
  shows "gray (2 ^ Suc k - 1 - j) = 2 ^ k + gray j"
proof -
  have "(2::int) ^ k \<le> 2 ^ Suc k" by (rule power_increasing) simp_all
  with assms(2) have "j < 2 ^ Suc k" by (rule less_le_trans)
  hence idx: "2 ^ Suc k - 1 - j = mask (Suc k) XOR j" using assms(1) by (intro reflect_index)
  have half: "(mask (Suc k) :: int) div 2 = mask k"
    using drop_bit_mask_eq [of 1 "Suc k", where ?'a = int] by (simp add: drop_bit_eq_div)
  have top: "(mask (Suc k) :: int) XOR mask k = 2 ^ k"
    by (rule bit_eqI) (auto simp: bit_simps)
  have "gray (mask (Suc k) XOR j) = (mask (Suc k) XOR j) XOR (mask k XOR j div 2)"
    by (simp add: gray_def xor_half half)
  also have "\<dots> = (mask (Suc k) XOR mask k) XOR (j XOR j div 2)"
    by (simp add: ac_simps)
  also have "\<dots> = 2 ^ k XOR gray j" by (simp only: top gray_def)
  also have "\<dots> = 2 ^ k + gray j"
    using gray_bound [OF assms] by (intro pow2_plus_xor) simp_all
  finally show ?thesis by (simp only: idx)
qed

lemma RBC_bits_of: "RBC k = map (\<lambda>i. bits_of k (gray (int i))) [0 ..< 2 ^ k]"
proof (induction k)
  case 0
  then show ?case by simp
next
  case (Suc k)
  let ?f = "\<lambda>k i. bits_of k (gray (int i))"
  have low: "map ((#) 0x30) (RBC k) = map (?f (Suc k)) [0 ..< 2 ^ k]"
  proof -
    have "bits_of (Suc k) (gray (int i)) = 0x30 # bits_of k (gray (int i))" if "i < 2 ^ k" for i
    proof -
      have "int i < 2 ^ k" using that by (simp flip: of_nat_power add: of_nat_less_iff del: of_nat_power)
      hence "0 \<le> gray (int i) \<and> gray (int i) < 2 ^ k" by (intro gray_bound) simp_all
      thus ?thesis by (intro bits_of_msb0) simp_all
    qed
    thus ?thesis by (simp add: Suc.IH)
  qed
  have high: "map ((#) 0x31) (rev (RBC k)) = map (?f (Suc k)) [2 ^ k ..< 2 ^ Suc k]"
  proof (rule nth_equalityI)
    show "length (map ((#) 0x31) (rev (RBC k))) = length (map (?f (Suc k)) [2 ^ k ..< 2 ^ Suc k])"
      by (simp add: Suc.IH)
  next
    fix i assume "i < length (map ((#) 0x31) (rev (RBC k)))"
    hence i: "i < 2 ^ k" by (simp add: Suc.IH)
    define j :: int where "j = 2 ^ k - 1 - int i"
    have ii: "int i < 2 ^ k" using i by (simp flip: of_nat_power add: of_nat_less_iff del: of_nat_power)
    have j: "0 \<le> j" "j < 2 ^ k" using ii by (simp_all add: j_def)
    have jn: "int (2 ^ k - Suc i) = j" using i by (simp add: j_def of_nat_diff)
    have "map ((#) 0x31) (rev (RBC k)) ! i = 0x31 # (RBC k ! (2 ^ k - Suc i))"
      using i by (simp add: Suc.IH rev_nth del: upt_Suc)
    also have "RBC k ! (2 ^ k - Suc i) = bits_of k (gray j)"
      using i by (simp add: Suc.IH jn del: upt_Suc)
    also have "0x31 # bits_of k (gray j) = bits_of (Suc k) (2 ^ k + gray j)"
      using gray_bound [OF j] by (intro bits_of_msb1 [symmetric]) simp_all
    also have "2 ^ k + gray j = gray (2 ^ Suc k - 1 - j)"
      using j by (rule gray_reflect [symmetric])
    also have "2 ^ Suc k - 1 - j = int (2 ^ k + i)" by (simp add: j_def)
    also have "bits_of (Suc k) (gray (int (2 ^ k + i))) = map (?f (Suc k)) [2 ^ k ..< 2 ^ Suc k] ! i"
      using i by simp
    finally show "map ((#) 0x31) (rev (RBC k)) ! i = map (?f (Suc k)) [2 ^ k ..< 2 ^ Suc k] ! i" .
  qed
  have "[0 ..< (2::nat) ^ k + 2 ^ k] = [0 ..< 2 ^ k] @ [2 ^ k ..< 2 ^ k + 2 ^ k]"
    by (rule upt_add_eq_append) simp
  hence "[0 ..< (2::nat) ^ Suc k] = [0 ..< 2 ^ k] @ [2 ^ k ..< 2 ^ Suc k]"
    by (simp add: mult_2)
  thus ?case using low high by simp
qed


lemma graySequence_bits_of:
  assumes "1 \<le> k" "k \<le> 30"
  shows "graySequence (int k) = map (\<lambda>i. bits_of k (gray (int i))) [0 ..< 2 ^ k]"
proof -
  have "js_shl 1 (int k) = 2 ^ nat (int k)" using assms by (intro js_shl_1) simp_all
  hence n: "nat (js_shl 1 (int k)) = 2 ^ k" by (simp add: nat_power_eq)
  have le: "(2::int) ^ k \<le> 2 ^ 31" using assms(2) by (intro power_increasing) simp_all
  have "pad (binToGray (int i)) (int k) = bits_of k (gray (int i))" if "i < 2 ^ k" for i
  proof -
    have ii: "int i < 2 ^ k"
      using that by (simp flip: of_nat_power add: of_nat_less_iff del: of_nat_power)
    from ii le have "int i < 2 ^ 31" by (rule less_le_trans)
    hence "binToGray (int i) = gray (int i)" by (simp add: binToGray_small gray_def)
    moreover have "0 \<le> gray (int i) \<and> gray (int i) < 2 ^ k" using ii by (intro gray_bound) simp_all
    ultimately show ?thesis using assms(1) by (simp add: pad_bits_of)
  qed
  thus ?thesis unfolding graySequence_def n by simp
qed

lemma RBC_graySequence_30:
  assumes "1 \<le> k" "k \<le> 30"
  shows "RBC k = graySequence (int k)"
  using assms by (simp only: graySequence_bits_of RBC_bits_of)

text \<open>
  C5. For every \<open>k\<close> from 1 to 6 the reflected construction \<open>RBC(k)\<close> is the list of
  \<open>pad(binToGray(i), k)\<close> for \<open>i\<close> from 0 to \<open>2 ^ k - 1\<close>: the same strings in the same
  order.
\<close>

theorem RBC_eq_graySequence:
  assumes "1 \<le> k" "k \<le> 6"
  shows "RBC k = graySequence (int k)"
  using assms by (intro RBC_graySequence_30) simp_all

theorem RBC_eq_graySequence_witness:
  "(1::nat) \<le> 2 \<and> (2::nat) \<le> 6 
   \<and> RBC 2 = [js_str ''00'', js_str ''01'', js_str ''11'', js_str ''10'']
   \<and> graySequence 2 = [js_str ''00'', js_str ''01'', js_str ''11'', js_str ''10'']"
proof -
  have "RBC 2 = [js_str ''00'', js_str ''01'', js_str ''11'', js_str ''10'']" by code_simp
  thus ?thesis using RBC_eq_graySequence [of 2] by simp
qed

section \<open>Conversions of up to 31 digits\<close>

text \<open>With at most 31 binary digits every value stays below \<open>2 ^ 31\<close>: both conversions
  return, and the result has as many characters as the input has digits.\<close>

lemma grayToBin_loop_total:
  fixes g b :: int
  assumes "0 \<le> g" "g < 2 ^ k" "0 \<le> b" "b < 2 ^ k" "k \<le> 31"
  shows "\<exists>y. grayToBin_loop b g = Some y \<and> 0 \<le> y \<and> y < 2 ^ k"
  using assms
proof (induction "nat g" arbitrary: g b rule: less_induct)
  case less
  show ?case
  proof (cases "g = 0")
    case True
    then show ?thesis using less.prems by (simp add: grayToBin_loop.simps)
  next
    case False
    have "(2::int) ^ k \<le> 2 ^ 31" using less.prems(5) by (intro power_increasing) simp_all
    hence le: "(2::int) ^ k \<le> 2147483648" by simp
    have bg: "0 \<le> b XOR g \<and> b XOR g < 2 ^ k"
      using less.prems(1-4) by (intro xor_small)
    have x: "js_xor b g = b XOR g" using bg le by (simp add: js_xor_int small_signed)
    have s: "js_sar g 1 = g div 2" using less.prems(1,2) le by (simp add: js_sar_int small_signed)
    have "\<exists>y. grayToBin_loop (b XOR g) (g div 2) = Some y \<and> 0 \<le> y \<and> y < 2 ^ k"
      using False less.prems(1,2,5) bg by (intro less.hyps) simp_all
    moreover have "grayToBin_loop b g = grayToBin_loop (b XOR g) (g div 2)"
      using False by (subst grayToBin_loop.simps) (simp add: x s)
    ultimately show ?thesis by simp
  qed
qed

lemma convert_up_to_31_digits:
  assumes "stripNonBinary str \<noteq> []" "length (stripNonBinary str) \<le> 31"
  shows "\<exists>num y. parseInt (stripNonBinary str) 2 = Finite (of_int num)
           \<and> (if toGray then Some (binToGray num) else grayToBin num) = Some y
           \<and> convert (JSString str) toGray = Some (pad y (int (length (stripNonBinary str))))
           \<and> length (pad y (int (length (stripNonBinary str)))) = length (stripNonBinary str)"
proof -
  define s where "s = stripNonBinary str"
  define k where "k = length s"
  have s: "s \<noteq> []" "k \<le> 31" "0 < k" using assms by (simp_all add: s_def k_def)
  obtain num where num: "parseInt s 2 = Finite (of_int num)" "0 \<le> num" "num < 2 ^ k"
    using parseInt_binary [of s] stripNonBinary_set [of str] s(1,2)
    unfolding s_def [symmetric] k_def by auto
  have "(2::int) ^ k \<le> 2 ^ 31" using s(2) by (intro power_increasing) simp_all
  hence n31: "num < 2 ^ 31" using num(3) by simp
  have "\<exists>y. (if toGray then Some (binToGray num) else grayToBin num) = Some y \<and> 0 \<le> y \<and> y < 2 ^ k"
  proof (cases toGray)
    case True
    have "0 \<le> num div 2" "num div 2 < 2 ^ k" using num(2,3) by simp_all
    hence "0 \<le> num XOR num div 2 \<and> num XOR num div 2 < 2 ^ k" using num(2,3) by (intro xor_small)
    thus ?thesis using True num(2) n31 by (simp add: binToGray_small)
  next
    case False
    thus ?thesis using grayToBin_loop_total [OF num(2,3) _ _ s(2), of 0]
      by (simp add: grayToBin_def)
  qed
  then obtain y where y: "(if toGray then Some (binToGray num) else grayToBin num) = Some y"
    "0 \<le> y" "y < 2 ^ k" by blast
  have len: "length (pad y (int k)) = k" using y(2,3) s(3) by (simp add: pad_bits_of)
  have "convert (JSString str) toGray
          = map_option (\<lambda>result. pad result (int k))
              (if toGray then Some (binToGray num) else grayToBin num)"
    using s(1,2) num(1,2) by (simp add: convert_def Let_def s_def [symmetric] k_def [symmetric])
  hence "convert (JSString str) toGray = Some (pad y (int k))" by (simp only: y(1) option.map)
  thus ?thesis using num(1) y(1) len unfolding s_def k_def by blast
qed

end
